theory Spec2Isabelle
  imports Complex_Main "HOL-Library.Word" "HOL-Library.Product_Lexorder"
begin

section \<open>JavaScript numbers\<close>

text \<open>
  A JavaScript \<^verbatim>\<open>number\<close> is an IEEE-754 double. The model keeps the three special
  values apart from the finite ones and follows IEEE-754 wherever a special value is
  involved (\<open>Infinity - Infinity\<close>, \<open>0 * Infinity\<close> and \<open>Infinity / Infinity\<close> are
  \<open>NaN\<close>, every comparison with \<open>NaN\<close> is false, ...). A finite value is the real
  number the double stands for, and every arithmetic operation rounds its exact result
  to the nearest double, the even one of two nearest, and to an infinity from
  \<open>2^1024 - 2^970\<close> on. The sign of zero is not modelled (a zero divisor is taken as
  \<open>+0\<close>).
\<close>

datatype number = Fin real | PInf | NInf | NaN

subsection \<open>Rounding to the nearest double\<close>

definition pow2 :: "int \<Rightarrow> real" where
  "pow2 e = 2 powi e"

text \<open>The nearest integer, the even one of two nearest.\<close>

definition round_even :: "real \<Rightarrow> int" where
  "round_even q =
     (let f = \<lfloor>q\<rfloor>; r = q - of_int f
      in if r < 1 / 2 then f else if 1 / 2 < r then f + 1 else if even f then f else f + 1)"

text \<open>
  The exponent \<open>e\<close> with \<open>2^e \<le> |x| < 2^(e+1)\<close>, and \<open>-1022\<close> below: the doubles of
  this magnitude are the multiples of \<open>2^(e-52)\<close>, the subnormal ones of \<open>2^-1074\<close>.
\<close>

definition binade :: "real \<Rightarrow> int" where
  "binade x = (if \<bar>x\<bar> < pow2 (- 1022) then - 1022 else \<lfloor>log 2 \<bar>x\<bar>\<rfloor>)"

definition round_double :: "real \<Rightarrow> real" where
  "round_double x = (let u = pow2 (binade x - 52) in of_int (round_even (x / u)) * u)"

definition rnd :: "real \<Rightarrow> number" where
  "rnd x =
     (let y = round_double x
      in if pow2 1024 \<le> y then PInf else if y \<le> - pow2 1024 then NInf else Fin y)"

text \<open>
  The doubles: the integers below \<open>2^53\<close> in magnitude, scaled by a power of two from
  \<open>2^-1074\<close> to \<open>2^971\<close>. The spacing of the doubles around \<open>x\<close> is \<open>ulp x\<close>.
\<close>

definition is_double :: "real \<Rightarrow> bool" where
  "is_double x = (\<exists>m e. \<bar>m\<bar> < 2 ^ 53 \<and> - 1074 \<le> e \<and> e \<le> 971 \<and> x = of_int m * pow2 e)"

definition ulp :: "real \<Rightarrow> real" where
  "ulp x = pow2 (binade x - 52)"

subsection \<open>Arithmetic\<close>

fun num_add :: "number \<Rightarrow> number \<Rightarrow> number" where
  "num_add NaN _ = NaN"
| "num_add _ NaN = NaN"
| "num_add (Fin a) (Fin b) = rnd (a + b)"
| "num_add PInf NInf = NaN"
| "num_add NInf PInf = NaN"
| "num_add PInf _ = PInf"
| "num_add _ PInf = PInf"
| "num_add NInf _ = NInf"
| "num_add _ NInf = NInf"

fun num_neg :: "number \<Rightarrow> number" where
  "num_neg NaN = NaN"
| "num_neg (Fin a) = Fin (- a)"
| "num_neg PInf = NInf"
| "num_neg NInf = PInf"

definition num_sub :: "number \<Rightarrow> number \<Rightarrow> number" where
  "num_sub a b = num_add a (num_neg b)"

text \<open>The infinity of the sign of a finite non-zero factor.\<close>

definition signed_inf :: "real \<Rightarrow> number" where
  "signed_inf a = (if a = 0 then NaN else if 0 < a then PInf else NInf)"

fun num_mul :: "number \<Rightarrow> number \<Rightarrow> number" where
  "num_mul NaN _ = NaN"
| "num_mul _ NaN = NaN"
| "num_mul (Fin a) (Fin b) = rnd (a * b)"
| "num_mul (Fin a) PInf = signed_inf a"
| "num_mul (Fin a) NInf = signed_inf (- a)"
| "num_mul PInf (Fin b) = signed_inf b"
| "num_mul NInf (Fin b) = signed_inf (- b)"
| "num_mul PInf PInf = PInf"
| "num_mul NInf NInf = PInf"
| "num_mul PInf NInf = NInf"
| "num_mul NInf PInf = NInf"

fun num_div :: "number \<Rightarrow> number \<Rightarrow> number" where
  "num_div NaN _ = NaN"
| "num_div _ NaN = NaN"
| "num_div (Fin a) (Fin b) = (if b = 0 then signed_inf a else rnd (a / b))"
| "num_div (Fin a) PInf = Fin 0"
| "num_div (Fin a) NInf = Fin 0"
| "num_div PInf (Fin b) = (if 0 \<le> b then PInf else NInf)"
| "num_div NInf (Fin b) = (if 0 \<le> b then NInf else PInf)"
| "num_div PInf PInf = NaN"
| "num_div PInf NInf = NaN"
| "num_div NInf PInf = NaN"
| "num_div NInf NInf = NaN"

text \<open>\<^verbatim>\<open>Math.sqrt\<close>, correctly rounded as the IEEE-754 square root is.\<close>

fun math_sqrt :: "number \<Rightarrow> number" where
  "math_sqrt NaN = NaN"
| "math_sqrt PInf = PInf"
| "math_sqrt NInf = NaN"
| "math_sqrt (Fin a) = (if a < 0 then NaN else rnd (sqrt a))"

text \<open>The operators \<^verbatim>\<open><\<close> and \<^verbatim>\<open><=\<close>: false as soon as one side is \<open>NaN\<close>.\<close>

fun num_lt :: "number \<Rightarrow> number \<Rightarrow> bool" where
  "num_lt NaN _ = False"
| "num_lt _ NaN = False"
| "num_lt (Fin a) (Fin b) = (a < b)"
| "num_lt (Fin a) PInf = True"
| "num_lt NInf (Fin b) = True"
| "num_lt NInf PInf = True"
| "num_lt _ _ = False"

fun num_le :: "number \<Rightarrow> number \<Rightarrow> bool" where
  "num_le NaN _ = False"
| "num_le _ NaN = False"
| "num_le a b = (a = b \<or> num_lt a b)"

definition num_gt :: "number \<Rightarrow> number \<Rightarrow> bool" where
  "num_gt a b = num_lt b a"

text \<open>\<^verbatim>\<open>Math.max\<close> and \<^verbatim>\<open>Math.min\<close> of two arguments: \<open>NaN\<close> if either is.\<close>

fun math_max :: "number \<Rightarrow> number \<Rightarrow> number" where
  "math_max NaN _ = NaN"
| "math_max _ NaN = NaN"
| "math_max a b = (if num_lt a b then b else a)"

fun math_min :: "number \<Rightarrow> number \<Rightarrow> number" where
  "math_min NaN _ = NaN"
| "math_min _ NaN = NaN"
| "math_min a b = (if num_lt b a then b else a)"

fun math_abs :: "number \<Rightarrow> number" where
  "math_abs NaN = NaN"
| "math_abs PInf = PInf"
| "math_abs NInf = PInf"
| "math_abs (Fin a) = Fin \<bar>a\<bar>"

text \<open>\<^verbatim>\<open>Math.floor\<close>.\<close>

fun math_floor :: "number \<Rightarrow> number" where
  "math_floor (Fin a) = Fin (of_int \<lfloor>a\<rfloor>)"
| "math_floor x = x"

text \<open>\<^verbatim>\<open>Number.isFinite\<close>.\<close>

fun isFinite :: "number \<Rightarrow> bool" where
  "isFinite (Fin a) = True"
| "isFinite _ = False"

text \<open>
  \<^verbatim>\<open>x || 0\<close> on a possibly missing array element (\<open>None\<close> is \<^verbatim>\<open>undefined\<close>):
  \<^verbatim>\<open>undefined\<close>, \<open>NaN\<close> and zero are falsy. \<^verbatim>\<open>x ?? d\<close> only replaces
  \<^verbatim>\<open>undefined\<close>.
\<close>

fun or_zero :: "number option \<Rightarrow> number" where
  "or_zero None = Fin 0"
| "or_zero (Some NaN) = Fin 0"
| "or_zero (Some x) = x"

fun nullish :: "'a option \<Rightarrow> 'a \<Rightarrow> 'a" where
  "nullish None d = d"
| "nullish (Some x) d = x"

text \<open>Reading an array at a (possibly negative or too large) integer index.\<close>

definition array_get :: "'a list \<Rightarrow> int \<Rightarrow> 'a option" where
  "array_get xs i = (if 0 \<le> i \<and> i < int (length xs) then Some (xs ! nat i) else None)"

text \<open>
  Reading an array at a number: only a number that is an integer in range is the index
  of an element.
\<close>

fun array_at :: "'a list \<Rightarrow> number \<Rightarrow> 'a option" where
  "array_at xs (Fin i) = (if i = of_int \<lfloor>i\<rfloor> then array_get xs \<lfloor>i\<rfloor> else None)"
| "array_at xs _ = None"

text \<open>
  \<^verbatim>\<open>Array.prototype.sort\<close> with a comparator, which ECMAScript specifies to be stable:
  an element stays in front of the later ones the comparator does not put before it. A
  comparator result that is not positive (negative, zero or \<open>NaN\<close>) keeps the order.
\<close>

fun sort_insert :: "('a \<Rightarrow> 'a \<Rightarrow> number) \<Rightarrow> 'a \<Rightarrow> 'a list \<Rightarrow> 'a list" where
  "sort_insert cmp x [] = [x]"
| "sort_insert cmp x (y # ys) =
     (if num_gt (cmp x y) (Fin 0) then y # sort_insert cmp x ys else x # y # ys)"

fun array_sort :: "('a \<Rightarrow> 'a \<Rightarrow> number) \<Rightarrow> 'a list \<Rightarrow> 'a list" where
  "array_sort cmp [] = []"
| "array_sort cmp (x # xs) = sort_insert cmp x (array_sort cmp xs)"

section \<open>Strings and the conversion of strings to numbers\<close>

text \<open>
  A string is its list of characters, which are the code units below 256. The white
  space of \<^verbatim>\<open>trim\<close>, of the pattern \<^verbatim>\<open>\s\<close> and of \<^verbatim>\<open>Number\<close> among them is tab, line
  feed, vertical tab, form feed, carriage return, space and the no-break space
  \<open>U+00A0\<close>; the other white space characters of ECMAScript lie above 255 and do not
  occur in these strings.
\<close>

definition is_space :: "char \<Rightarrow> bool" where
  "is_space c = (c \<in> set [CHR 0x09, CHR 0x0A, CHR 0x0B, CHR 0x0C, CHR 0x0D, CHR '' '', CHR 0xA0])"

definition trim :: "string \<Rightarrow> string" where
  "trim s = rev (dropWhile is_space (rev (dropWhile is_space s)))"

definition startsWith :: "string \<Rightarrow> string \<Rightarrow> bool" where
  "startsWith s p = (take (length p) s = p)"

text \<open>
  \<^verbatim>\<open>s.split(/\s+/)\<close>: the pieces between the maximal runs of white space, an empty
  piece in front of a leading run and after a trailing one included; the empty string
  gives one empty piece.
\<close>

function split_ws :: "string \<Rightarrow> string list" where
  "split_ws s =
     (let piece = takeWhile (\<lambda>c. \<not> is_space c) s;
          rest = dropWhile (\<lambda>c. \<not> is_space c) s
      in if rest = [] then [piece] else piece # split_ws (dropWhile is_space rest))"
  by pat_completeness auto
termination
proof (relation "measure length")
  show "wf (measure length)" by simp
next
  fix s :: string and piece rest
  assume "rest = dropWhile (\<lambda>c. \<not> is_space c) s" "rest \<noteq> []"
  then have "length (dropWhile is_space rest) \<le> length rest" "length rest \<le> length s"
    "is_space (hd rest)"
    using hd_dropWhile [of "\<lambda>c. \<not> is_space c" s]
    by (auto simp: length_dropWhile_le)
  moreover from \<open>rest \<noteq> []\<close> \<open>is_space (hd rest)\<close> have "length (dropWhile is_space rest) < length rest"
    by (cases rest) (auto simp: le_imp_less_Suc length_dropWhile_le)
  ultimately show "(dropWhile is_space rest, s) \<in> measure length"
    by simp
qed

declare split_ws.simps [simp del]

text \<open>\<^verbatim>\<open>text.replace(/\r\n/g, '\n')\<close> and \<^verbatim>\<open>split('\n')\<close>.\<close>

fun replace_crlf :: "string \<Rightarrow> string" where
  "replace_crlf (c # d # s) =
     (if c = CHR 0x0D \<and> d = CHR 0x0A then CHR 0x0A # replace_crlf s else c # replace_crlf (d # s))"
| "replace_crlf s = s"

fun split_on :: "char \<Rightarrow> string \<Rightarrow> string list" where
  "split_on sep [] = [[]]"
| "split_on sep (c # s) =
     (if c = sep then [] # split_on sep s
      else (case split_on sep s of
              piece # pieces \<Rightarrow> (c # piece) # pieces
            | [] \<Rightarrow> [[c]]))"

text \<open>\<^verbatim>\<open>pieces.join(sep)\<close>.\<close>

fun join :: "string \<Rightarrow> string list \<Rightarrow> string" where
  "join sep [] = []"
| "join sep [piece] = piece"
| "join sep (piece # pieces) = piece @ sep @ join sep pieces"

subsection \<open>Number(string)\<close>

text \<open>
  The conversion of ECMAScript (\<open>StringToNumber\<close>): white space around the literal is
  dropped; the empty string is 0; a literal is a binary, octal or hexadecimal integer
  with its prefix, or an optionally signed \<^verbatim>\<open>Infinity\<close> or decimal literal (digits with
  an optional fraction, or a fraction alone, and an optional exponent); any other string
  is \<open>NaN\<close>. The value of a literal is rounded to the nearest double, and to an infinity
  when it is too large.
\<close>

definition is_digit :: "char \<Rightarrow> bool" where
  "is_digit c = (48 \<le> (of_char c :: nat) \<and> (of_char c :: nat) \<le> 57)"

definition digit_value :: "char \<Rightarrow> nat" where
  "digit_value c = of_char c - 48"

definition digits_value :: "string \<Rightarrow> nat" where
  "digits_value ds = foldl (\<lambda>n c. 10 * n + digit_value c) 0 ds"

text \<open>The value of a digit of a base up to 16, if the character is one.\<close>

definition hex_value :: "char \<Rightarrow> nat option" where
  "hex_value c =
     (let k = (of_char c :: nat)
      in if 48 \<le> k \<and> k \<le> 57 then Some (k - 48)
         else if 97 \<le> k \<and> k \<le> 102 then Some (k - 87)
         else if 65 \<le> k \<and> k \<le> 70 then Some (k - 55)
         else None)"

definition is_base_digit :: "nat \<Rightarrow> char \<Rightarrow> bool" where
  "is_base_digit base c = (case hex_value c of None \<Rightarrow> False | Some v \<Rightarrow> v < base)"

definition base_value :: "nat \<Rightarrow> string \<Rightarrow> nat" where
  "base_value base ds = foldl (\<lambda>n c. base * n + (case hex_value c of None \<Rightarrow> 0 | Some v \<Rightarrow> v)) 0 ds"

definition non_decimal_literal :: "string \<Rightarrow> nat option" where
  "non_decimal_literal s =
     (case s of
        z # p # ds \<Rightarrow>
          (let base = (if p = CHR ''x'' \<or> p = CHR ''X'' then 16
                       else if p = CHR ''o'' \<or> p = CHR ''O'' then 8
                       else if p = CHR ''b'' \<or> p = CHR ''B'' then 2 else (0::nat))
           in if z = CHR ''0'' \<and> base \<noteq> 0 \<and> ds \<noteq> [] \<and> list_all (is_base_digit base) ds
              then Some (base_value base ds) else None)
      | _ \<Rightarrow> None)"

text \<open>The exponent part, if the rest of a decimal literal is one (or is empty).\<close>

definition exponent_part :: "string \<Rightarrow> int option" where
  "exponent_part s =
     (case s of
        [] \<Rightarrow> Some 0
      | e # t \<Rightarrow>
          (if e = CHR ''e'' \<or> e = CHR ''E''
           then (let negative = (t \<noteq> [] \<and> hd t = CHR ''-'');
                     ds = (if t \<noteq> [] \<and> (hd t = CHR ''-'' \<or> hd t = CHR ''+'') then tl t else t)
                 in if ds \<noteq> [] \<and> list_all is_digit ds
                    then Some (if negative then - int (digits_value ds) else int (digits_value ds))
                    else None)
           else None))"

definition unsigned_decimal :: "string \<Rightarrow> number option" where
  "unsigned_decimal s =
     (if s = ''Infinity'' then Some PInf
      else (let ip = takeWhile is_digit s;
                r1 = dropWhile is_digit s;
                dot = (r1 \<noteq> [] \<and> hd r1 = CHR ''.'');
                fp = (if dot then takeWhile is_digit (tl r1) else []);
                r2 = (if dot then dropWhile is_digit (tl r1) else r1)
            in if ip = [] \<and> fp = [] then None
               else (case exponent_part r2 of
                       None \<Rightarrow> None
                     | Some e \<Rightarrow>
                         Some (rnd ((real (digits_value ip) + real (digits_value fp) / 10 ^ length fp)
                                    * 10 powi e)))))"

definition str_decimal :: "string \<Rightarrow> number option" where
  "str_decimal s =
     (case s of
        [] \<Rightarrow> None
      | c # t \<Rightarrow>
          (if c = CHR ''+'' then unsigned_decimal t
           else if c = CHR ''-'' then map_option num_neg (unsigned_decimal t)
           else unsigned_decimal s))"

definition Number :: "string \<Rightarrow> number" where
  "Number s =
     (let t = trim s
      in if t = [] then Fin 0
         else (case non_decimal_literal t of
                 Some n \<Rightarrow> rnd (real n)
               | None \<Rightarrow> (case str_decimal t of Some v \<Rightarrow> v | None \<Rightarrow> NaN)))"

section \<open>Vectors, triangles and boxes (stl\_utils)\<close>

type_synonym Vec3 = "number \<times> number \<times> number"

record Triangle =
  normal :: Vec3
  vertices :: "Vec3 \<times> Vec3 \<times> Vec3"

record Aabb =
  aabb_min :: Vec3
  aabb_max :: Vec3

text \<open>One vertex of the innermost loop of \<^verbatim>\<open>aabbOfTriangles\<close>, its three axes unrolled.\<close>

definition lower :: "number \<Rightarrow> number \<Rightarrow> number" where
  "lower v m = (if num_lt v m then v else m)"

definition upper :: "number \<Rightarrow> number \<Rightarrow> number" where
  "upper v m = (if num_gt v m then v else m)"

fun aabb_add_vertex :: "Aabb \<Rightarrow> Vec3 \<Rightarrow> Aabb" where
  "aabb_add_vertex box (x, y, z) =
     (case (aabb_min box, aabb_max box) of
        ((lx, ly, lz), (hx, hy, hz)) \<Rightarrow>
          \<lparr>aabb_min = (lower x lx, lower y ly, lower z lz),
           aabb_max = (upper x hx, upper y hy, upper z hz)\<rparr>)"

fun aabb_add_triangle :: "Aabb \<Rightarrow> Triangle \<Rightarrow> Aabb" where
  "aabb_add_triangle box t =
     (case vertices t of
        (v0, v1, v2) \<Rightarrow> aabb_add_vertex (aabb_add_vertex (aabb_add_vertex box v0) v1) v2)"

definition aabbOfTriangles :: "Triangle list \<Rightarrow> Aabb" where
  "aabbOfTriangles triangles =
     foldl aabb_add_triangle \<lparr>aabb_min = (PInf, PInf, PInf), aabb_max = (NInf, NInf, NInf)\<rparr> triangles"

fun aabbVolume :: "Aabb \<Rightarrow> number" where
  "aabbVolume box =
     (case (aabb_min box, aabb_max box) of
        ((lx, ly, lz), (hx, hy, hz)) \<Rightarrow>
          (let dx = math_max (Fin 0) (num_sub hx lx);
               dy = math_max (Fin 0) (num_sub hy ly);
               dz = math_max (Fin 0) (num_sub hz lz)
           in num_mul (num_mul dx dy) dz))"

fun aabbIntersection :: "Aabb \<Rightarrow> Aabb \<Rightarrow> Aabb option" where
  "aabbIntersection a b =
     (case (aabb_min a, aabb_max a, aabb_min b, aabb_max b) of
        ((alx, aly, alz), (ahx, ahy, ahz), (blx, bly, blz), (bhx, bhy, bhz)) \<Rightarrow>
          (let lx = math_max alx blx; ly = math_max aly bly; lz = math_max alz blz;
               hx = math_min ahx bhx; hy = math_min ahy bhy; hz = math_min ahz bhz
           in if num_lt hx lx \<or> num_lt hy ly \<or> num_lt hz lz then None
              else Some \<lparr>aabb_min = (lx, ly, lz), aabb_max = (hx, hy, hz)\<rparr>))"

definition aabbIou :: "Aabb \<Rightarrow> Aabb \<Rightarrow> number" where
  "aabbIou a b =
     (case aabbIntersection a b of
        None \<Rightarrow> Fin 0
      | Some isect \<Rightarrow>
          (let vI = aabbVolume isect;
               vU = num_sub (num_add (aabbVolume a) (aabbVolume b)) vI
           in if num_gt vU (Fin 0) then num_div vI vU else Fin 0))"

fun cross :: "Vec3 \<Rightarrow> Vec3 \<Rightarrow> Vec3" where
  "cross (a0, a1, a2) (b0, b1, b2) =
     (num_sub (num_mul a1 b2) (num_mul a2 b1),
      num_sub (num_mul a2 b0) (num_mul a0 b2),
      num_sub (num_mul a0 b1) (num_mul a1 b0))"

fun dot :: "Vec3 \<Rightarrow> Vec3 \<Rightarrow> number" where
  "dot (a0, a1, a2) (b0, b1, b2) =
     num_add (num_add (num_mul a0 b0) (num_mul a1 b1)) (num_mul a2 b2)"

fun vectorSubtract :: "Vec3 \<Rightarrow> Vec3 \<Rightarrow> Vec3" where
  "vectorSubtract (a0, a1, a2) (b0, b1, b2) = (num_sub a0 b0, num_sub a1 b1, num_sub a2 b2)"

definition triangleArea :: "Triangle \<Rightarrow> number" where
  "triangleArea t =
     (case vertices t of
        (a, b, c) \<Rightarrow>
          (let ab = vectorSubtract b a; ac = vectorSubtract c a; cr = cross ab ac;
               mag = math_sqrt (dot cr cr)
           in num_mul (Fin (1 / 2)) mag))"

definition surfaceArea :: "Triangle list \<Rightarrow> number" where
  "surfaceArea triangles = foldl (\<lambda>sum t. num_add sum (triangleArea t)) (Fin 0) triangles"

definition signedVolume :: "Triangle list \<Rightarrow> number" where
  "signedVolume triangles =
     (let vol6 = foldl (\<lambda>sum t. case vertices t of (p0, p1, p2) \<Rightarrow> num_add sum (dot p0 (cross p1 p2)))
                   (Fin 0) triangles
      in num_div vol6 (Fin 6))"

fun squaredDistance :: "Vec3 \<Rightarrow> Vec3 \<Rightarrow> number" where
  "squaredDistance (a0, a1, a2) (b0, b1, b2) =
     (let dx = num_sub a0 b0; dy = num_sub a1 b1; dz = num_sub a2 b2
      in num_add (num_add (num_mul dx dx) (num_mul dy dy)) (num_mul dz dz))"

fun aabbDiagonal :: "Aabb \<Rightarrow> number" where
  "aabbDiagonal box =
     (case (aabb_min box, aabb_max box) of
        ((lx, ly, lz), (hx, hy, hz)) \<Rightarrow>
          (let dx = num_sub hx lx; dy = num_sub hy ly; dz = num_sub hz lz
           in math_sqrt (num_add (num_add (num_mul dx dx) (num_mul dy dy)) (num_mul dz dz))))"

section \<open>Chamfer distance\<close>

record OneWayStats =
  mean :: number
  p95 :: number
  max_stat :: number

record ChamferStats =
  meanAB :: number
  meanBA :: number
  p95AB :: number
  p95BA :: number
  maxAB :: number
  maxBA :: number

text \<open>The inner loop of \<^verbatim>\<open>oneWay\<close>: the least squared distance seen so far.\<close>

fun nearest :: "Vec3 \<Rightarrow> Vec3 list \<Rightarrow> number \<Rightarrow> number" where
  "nearest p [] best = best"
| "nearest p (q # qs) best =
     (let d2 = squaredDistance p q in nearest p qs (if num_lt d2 best then d2 else best))"

definition oneWay :: "Vec3 list \<Rightarrow> Vec3 list \<Rightarrow> OneWayStats" where
  "oneWay a b =
     (let mins = array_sort (\<lambda>x y. num_sub x y) (map (\<lambda>p. math_sqrt (nearest p b PInf)) a);
          n = length mins;
          mean = num_div (foldl num_add (Fin 0) mins) (Fin (real (if n = 0 then 1 else n)));
          p95Index = math_min (num_sub (Fin (real n)) (Fin 1))
                       (math_floor (num_mul (Fin (real n)) (rnd (95 / 100))))
      in \<lparr>mean = mean,
          p95 = nullish (array_at mins p95Index) (Fin 0),
          max_stat = nullish (array_at mins (num_sub (Fin (real n)) (Fin 1))) (Fin 0)\<rparr>)"

definition chamferDistance :: "Vec3 list \<Rightarrow> Vec3 list \<Rightarrow> ChamferStats" where
  "chamferDistance pointsA pointsB =
     (let ab = oneWay pointsA pointsB; ba = oneWay pointsB pointsA
      in \<lparr>meanAB = mean ab, meanBA = mean ba, p95AB = p95 ab, p95BA = p95 ba,
          maxAB = max_stat ab, maxBA = max_stat ba\<rparr>)"

section \<open>Binary STL (bin2ascii)\<close>

text \<open>
  An \<^verbatim>\<open>ArrayBuffer\<close> is its list of bytes, and a \<^verbatim>\<open>DataView\<close> on it reads that list.
  The two errors \<^verbatim>\<open>parseBinaryStl\<close> throws are kept apart; \<open>RangeError\<close> is what a
  \<^verbatim>\<open>DataView\<close> read outside the buffer throws, and what \<^verbatim>\<open>new Array(n)\<close> throws when
  \<open>n\<close> is not a valid array length; \<open>TypeError\<close> is what reading a property of
  \<^verbatim>\<open>undefined\<close> throws.
\<close>

type_synonym byte = "8 word"

datatype error = TooSmall | SizeMismatch | RangeError | TypeError

text \<open>Four bytes read as a little-endian unsigned 32-bit integer.\<close>

definition le_uint32 :: "byte \<Rightarrow> byte \<Rightarrow> byte \<Rightarrow> byte \<Rightarrow> nat" where
  "le_uint32 b0 b1 b2 b3 = unat b0 + 256 * unat b1 + 65536 * unat b2 + 16777216 * unat b3"

text \<open>
  The value of an IEEE-754 binary32 bit pattern: one sign bit, eight exponent bits,
  23 fraction bits. Every such value is exactly a double.
\<close>

definition float32_value :: "nat \<Rightarrow> number" where
  "float32_value bits =
     (let negative = ((bits div 2 ^ 31) mod 2 = 1);
          e = (bits div 2 ^ 23) mod 256;
          m = bits mod 2 ^ 23;
          s = (if negative then - 1 else 1 :: real)
      in if e = 255 then (if m = 0 then (if negative then NInf else PInf) else NaN)
         else if e = 0 then Fin (s * real m / 2 ^ 149)
         else Fin (s * real (2 ^ 23 + m) * 2 powi (int e - 150)))"

text \<open>\<^verbatim>\<open>view.getUint32(offset, true)\<close> and \<^verbatim>\<open>view.getFloat32(offset, true)\<close>.\<close>

definition getUint32 :: "byte list \<Rightarrow> nat \<Rightarrow> error + nat" where
  "getUint32 view offset =
     (if offset + 4 \<le> length view
      then Inr (le_uint32 (view ! offset) (view ! (offset + 1)) (view ! (offset + 2)) (view ! (offset + 3)))
      else Inl RangeError)"

definition getFloat32 :: "byte list \<Rightarrow> nat \<Rightarrow> error + number" where
  "getFloat32 view offset =
     (case getUint32 view offset of
        Inl e \<Rightarrow> Inl e
      | Inr bits \<Rightarrow> Inr (float32_value bits))"

definition isLikelyBinaryStl :: "nat \<Rightarrow> byte list \<Rightarrow> error + bool" where
  "isLikelyBinaryStl fileSize headerAndCount =
     (if fileSize < 84 then Inr False
      else case getUint32 headerAndCount 80 of
             Inl e \<Rightarrow> Inl e
           | Inr triangleCount \<Rightarrow> (let expected = 84 + triangleCount * 50 in Inr (expected = fileSize)))"

definition readFloat3 :: "byte list \<Rightarrow> nat \<Rightarrow> error + Vec3" where
  "readFloat3 view offset =
     (case getFloat32 view (offset + 0) of
        Inl e \<Rightarrow> Inl e
      | Inr x \<Rightarrow>
          (case getFloat32 view (offset + 4) of
             Inl e \<Rightarrow> Inl e
           | Inr y \<Rightarrow>
               (case getFloat32 view (offset + 8) of
                  Inl e \<Rightarrow> Inl e
                | Inr z \<Rightarrow> Inr (x, y, z))))"

text \<open>
  The loop of \<^verbatim>\<open>parseBinaryStl\<close>, by the number of triangles still to read; each
  iteration stores its triangle at the next index and moves the offset by 50.
\<close>

fun read_triangles :: "byte list \<Rightarrow> nat \<Rightarrow> nat \<Rightarrow> error + Triangle list" where
  "read_triangles view offset 0 = Inr []"
| "read_triangles view offset (Suc k) =
     (case readFloat3 view offset of
        Inl e \<Rightarrow> Inl e
      | Inr n \<Rightarrow>
          (case readFloat3 view (offset + 12) of
             Inl e \<Rightarrow> Inl e
           | Inr v1 \<Rightarrow>
               (case readFloat3 view (offset + 24) of
                  Inl e \<Rightarrow> Inl e
                | Inr v2 \<Rightarrow>
                    (case readFloat3 view (offset + 36) of
                       Inl e \<Rightarrow> Inl e
                     | Inr v3 \<Rightarrow>
                         (case read_triangles view (offset + 50) k of
                            Inl e \<Rightarrow> Inl e
                          | Inr rest \<Rightarrow> Inr (\<lparr>normal = n, vertices = (v1, v2, v3)\<rparr> # rest))))))"

definition parseBinaryStl :: "byte list \<Rightarrow> error + Triangle list" where
  "parseBinaryStl buffer =
     (let view = buffer; fileSize = length buffer
      in if fileSize < 84 then Inl TooSmall
         else case isLikelyBinaryStl fileSize view of
                Inl e \<Rightarrow> Inl e
              | Inr False \<Rightarrow> Inl SizeMismatch
              | Inr True \<Rightarrow>
                  (case getUint32 view 80 of
                     Inl e \<Rightarrow> Inl e
                   | Inr triangleCount \<Rightarrow> read_triangles view 84 triangleCount))"

definition isBinaryStl :: "byte list \<Rightarrow> error + bool" where
  "isBinaryStl buffer = isLikelyBinaryStl (length buffer) buffer"

text \<open>
  The layout of the format, for stating what the decoder returns: the count stored at
  offset 80, the three floats at an offset, and the \<open>i\<close>-th record of 50 bytes after
  the 84 bytes of header and count (12 bytes of normal, 3 times 12 bytes of vertices,
  2 bytes that are ignored).
\<close>

definition stl_count :: "byte list \<Rightarrow> nat" where
  "stl_count buf = le_uint32 (buf ! 80) (buf ! 81) (buf ! 82) (buf ! 83)"

definition float_at :: "byte list \<Rightarrow> nat \<Rightarrow> number" where
  "float_at buf off =
     float32_value (le_uint32 (buf ! off) (buf ! (off + 1)) (buf ! (off + 2)) (buf ! (off + 3)))"

definition vec_at :: "byte list \<Rightarrow> nat \<Rightarrow> Vec3" where
  "vec_at buf off = (float_at buf off, float_at buf (off + 4), float_at buf (off + 8))"

definition triangle_at :: "byte list \<Rightarrow> nat \<Rightarrow> Triangle" where
  "triangle_at buf i =
     \<lparr>normal = vec_at buf (84 + 50 * i),
      vertices = (vec_at buf (84 + 50 * i + 12), vec_at buf (84 + 50 * i + 24),
                  vec_at buf (84 + 50 * i + 36))\<rparr>"

text \<open>The record of 50 bytes that starts at an offset.\<close>

definition record_at :: "byte list \<Rightarrow> nat \<Rightarrow> Triangle" where
  "record_at buf off =
     \<lparr>normal = vec_at buf off,
      vertices = (vec_at buf (off + 12), vec_at buf (off + 24), vec_at buf (off + 36))\<rparr>"

section \<open>Surface sampling\<close>

text \<open>
  A call either returns a value, throws, or does not return: \<open>None\<close> is a loop that
  runs forever, \<open>Some (Inl e)\<close> the exception \<open>e\<close>.
\<close>

type_synonym 'a result = "(error + 'a) option"

text \<open>
  \<^verbatim>\<open>x >> 1\<close>: the operand is first converted to a signed 32-bit integer (it wraps
  around modulo \<open>2^32\<close>), then shifted.
\<close>

definition shr1 :: "int \<Rightarrow> int" where
  "shr1 x = signed_take_bit 31 x div 2"

text \<open>The prefix sums that \<^verbatim>\<open>sampleSurfacePoints\<close> writes over the array of areas.\<close>

fun prefix_from :: "number \<Rightarrow> number list \<Rightarrow> number list" where
  "prefix_from cumulative [] = []"
| "prefix_from cumulative (current # rest) =
     (let c = num_add cumulative current in c # prefix_from c rest)"

fun prefix_sums :: "number list \<Rightarrow> number list" where
  "prefix_sums [] = []"
| "prefix_sums (a # rest) = a # prefix_from a rest"

definition cumulative_areas :: "Triangle list \<Rightarrow> number list" where
  "cumulative_areas triangles =
     (let areas = map triangleArea triangles;
          total = foldl num_add (Fin 0) areas
      in prefix_sums (if total = Fin 0 then replicate (length triangles) (Fin 1) else areas))"

text \<open>
  The binary search of \<^verbatim>\<open>pickTriangleIndex\<close>. Its index arithmetic is 32-bit, so
  that the loop is not known to end on every array: it is a partial function.
\<close>

partial_function (option) search_cutoff :: "number list \<Rightarrow> number \<Rightarrow> int \<Rightarrow> int \<Rightarrow> int option" where
  "search_cutoff areas r lo hi =
     (if lo < hi
      then (if num_le r (nullish (array_get areas (shr1 (lo + hi))) (Fin 0))
            then search_cutoff areas r lo (shr1 (lo + hi))
            else search_cutoff areas r (shr1 (lo + hi) + 1) hi)
      else Some lo)"

definition pickTriangleIndex :: "number list \<Rightarrow> number \<Rightarrow> int option" where
  "pickTriangleIndex areas draw =
     (let n = int (length areas);
          totalArea = nullish (array_get areas (n - 1)) (Fin 0);
          r = num_mul draw totalArea
      in search_cutoff areas r 0 (n - 1))"

fun samplePointInTriangle :: "Vec3 \<Rightarrow> Vec3 \<Rightarrow> Vec3 \<Rightarrow> number \<Rightarrow> number \<Rightarrow> Vec3" where
  "samplePointInTriangle (a0, a1, a2) (b0, b1, b2) (c0, c1, c2) draw1 draw2 =
     (let r1 = math_sqrt draw1;
          r2 = draw2;
          u = num_sub (Fin 1) r1;
          v = num_mul r1 (num_sub (Fin 1) r2);
          w = num_mul r1 r2
      in (num_add (num_add (num_mul u a0) (num_mul v b0)) (num_mul w c0),
          num_add (num_add (num_mul u a1) (num_mul v b1)) (num_mul w c1),
          num_add (num_add (num_mul u a2) (num_mul v b2)) (num_mul w c2)))"

text \<open>
  The random source is the sequence \<open>rng\<close> of the values its successive calls return,
  with the number \<open>k\<close> of calls made so far. The sampling loop, by the number of points
  still to draw, makes three calls for each point and returns the points with the new
  number of calls.
\<close>

fun sample_loop ::
  "Triangle list \<Rightarrow> number list \<Rightarrow> (nat \<Rightarrow> number) \<Rightarrow> nat \<Rightarrow> nat \<Rightarrow> (Vec3 list \<times> nat) result" where
  "sample_loop triangles areas rng k 0 = Some (Inr ([], k))"
| "sample_loop triangles areas rng k (Suc m) =
     (case pickTriangleIndex areas (rng k) of
        None \<Rightarrow> None
      | Some idx \<Rightarrow>
          (case array_get triangles idx of
             None \<Rightarrow> Some (Inl TypeError)
           | Some tri \<Rightarrow>
               (case vertices tri of
                  (a, b, c) \<Rightarrow>
                    (let p = samplePointInTriangle a b c (rng (k + 1)) (rng (k + 2))
                     in case sample_loop triangles areas rng (k + 3) m of
                          None \<Rightarrow> None
                        | Some (Inl e) \<Rightarrow> Some (Inl e)
                        | Some (Inr (pts, k')) \<Rightarrow> Some (Inr (p # pts, k'))))))"

text \<open>
  \<^verbatim>\<open>sampleSurfacePoints\<close>, for an integer sample count. \<^verbatim>\<open>new Array(sampleCount)\<close>
  throws a \<open>RangeError\<close> when the count is above \<open>2^32 - 1\<close>.
\<close>

definition sampleSurfacePoints ::
  "Triangle list \<Rightarrow> int \<Rightarrow> (nat \<Rightarrow> number) \<Rightarrow> nat \<Rightarrow> (Vec3 list \<times> nat) result" where
  "sampleSurfacePoints triangles sampleCount rng k =
     (let n = length triangles
      in if n = 0 \<or> sampleCount \<le> 0 then Some (Inr ([], k))
         else (let areas = cumulative_areas triangles
               in if 2 ^ 32 - 1 < sampleCount then Some (Inl RangeError)
                  else sample_loop triangles areas rng k (nat sampleCount)))"

section \<open>ASCII STL (parseAsciiStl)\<close>

definition lines_of :: "string \<Rightarrow> string list" where
  "lines_of text = split_on CHR 0x0A (replace_crlf text)"

text \<open>\<^verbatim>\<open>(lines[i] ?? '').trim()\<close>.\<close>

definition line_at :: "string list \<Rightarrow> nat \<Rightarrow> string" where
  "line_at lines i = trim (if i < length lines then lines ! i else [])"

text \<open>
  The two skipping loops: \<^verbatim>\<open>while (i < lines.length && !line(i).startsWith(p)) i++\<close>.
\<close>

function skip_until :: "string \<Rightarrow> string list \<Rightarrow> nat \<Rightarrow> nat" where
  "skip_until p lines i =
     (if i < length lines \<and> \<not> startsWith (line_at lines i) p
      then skip_until p lines (i + 1) else i)"
  by pat_completeness auto
termination
  by (relation "measure (\<lambda>(p, lines, i). length lines - i)") auto

declare skip_until.simps [simp del]

text \<open>A vector of the first three numbers of a list, a missing or unreadable one being 0.\<close>

definition vec_of_values :: "number list \<Rightarrow> Vec3" where
  "vec_of_values vals =
     (or_zero (array_get vals 0), or_zero (array_get vals 1), or_zero (array_get vals 2))"

definition parseFloatsFromLine :: "string \<Rightarrow> number list" where
  "parseFloatsFromLine line = map Number (drop 2 (split_ws (trim line)))"

text \<open>
  The loop that reads the vertex lines, \<open>k\<close> counting them: it stops after three
  lines, at the end of the text, or at the first line that does not start with
  \<^verbatim>\<open>vertex\<close>.
\<close>

function read_vertices :: "string list \<Rightarrow> nat \<Rightarrow> nat \<Rightarrow> Vec3 list \<Rightarrow> Vec3 list \<times> nat" where
  "read_vertices lines k i verts =
     (if k < 3 \<and> i < length lines
      then (let vline = line_at lines i
            in if \<not> startsWith vline ''vertex'' then (verts, i)
               else (let vals = map Number (drop 1 (split_ws vline));
                         v = vec_of_values vals
                     in read_vertices lines (k + 1) (i + 1) (verts @ [v])))
      else (verts, i))"
  by pat_completeness auto
termination
  by (relation "measure (\<lambda>(lines, k, i, verts). 3 - k)") auto

declare read_vertices.simps [simp del]

lemma skip_until_ge: "i \<le> skip_until p lines i"
proof (induction p lines i rule: skip_until.induct)
  case (1 p lines i)
  show ?case
  proof (cases "i < length lines \<and> \<not> startsWith (line_at lines i) p")
    case True
    with "1.IH" have "i + 1 \<le> skip_until p lines (i + 1)" by simp
    moreover from True have "skip_until p lines i = skip_until p lines (i + 1)"
      by (subst skip_until.simps) simp
    ultimately show ?thesis by simp
  next
    case False
    then have "skip_until p lines i = i"
      by (subst skip_until.simps) auto
    then show ?thesis by simp
  qed
qed

lemma read_vertices_ge: "i \<le> snd (read_vertices lines k i verts)"
proof (induction lines k i verts rule: read_vertices.induct)
  case (1 lines k i verts)
  show ?case
  proof (cases "k < 3 \<and> i < length lines \<and> startsWith (line_at lines i) ''vertex''")
    case True
    then have "read_vertices lines k i verts =
        read_vertices lines (k + 1) (i + 1)
          (verts @ [vec_of_values (map Number (drop 1 (split_ws (line_at lines i))))])"
      by (subst read_vertices.simps) (simp add: Let_def)
    moreover have "i + 1 \<le> snd (read_vertices lines (k + 1) (i + 1)
          (verts @ [vec_of_values (map Number (drop 1 (split_ws (line_at lines i))))]))"
      using True by (intro "1.IH" [OF _ refl _ refl refl]) simp_all
    ultimately show ?thesis by simp
  next
    case False
    then have "read_vertices lines k i verts = (verts, i)"
      by (subst read_vertices.simps) (auto simp: Let_def)
    then show ?thesis by simp
  qed
qed

text \<open>
  The main loop, with the triangles pushed so far. After a line that starts with
  \<^verbatim>\<open>facet normal\<close> it skips to the line after the next \<^verbatim>\<open>outer loop\<close>, reads the
  vertex lines, skips to the next \<^verbatim>\<open>endfacet\<close>, and pushes a triangle if it has read
  three vertices.
\<close>

function parse_loop :: "string list \<Rightarrow> nat \<Rightarrow> Triangle list \<Rightarrow> Triangle list" where
  "parse_loop lines i triangles =
     (if i < length lines
      then (let line = line_at lines i
            in if startsWith line ''facet normal''
               then (let normal = vec_of_values (parseFloatsFromLine line);
                         i1 = skip_until ''outer loop'' lines (i + 1)
                     in case read_vertices lines 0 (i1 + 1) [] of
                          (verts, i2) \<Rightarrow>
                            (let i3 = skip_until ''endfacet'' lines i2
                             in parse_loop lines (i3 + 1)
                                  (if length verts = 3
                                   then triangles @ [\<lparr>normal = normal, vertices = (verts ! 0, verts ! 1, verts ! 2)\<rparr>]
                                   else triangles)))
               else parse_loop lines (i + 1) triangles)
      else triangles)"
  by pat_completeness auto
termination
proof (relation "measure (\<lambda>(lines, i, triangles). length lines - i)", simp_all, goal_cases)
  case (1 lines i x xa xb xc y xd)
  have "Suc i \<le> skip_until ''outer loop'' lines (Suc i)"
    by (rule skip_until_ge)
  moreover have "Suc (skip_until ''outer loop'' lines (Suc i)) \<le> y"
    using read_vertices_ge [of "Suc (skip_until ''outer loop'' lines (Suc i))" lines 0 "[]"] 1(6)
    by (metis snd_conv)
  moreover have "y \<le> skip_until ''endfacet'' lines y"
    by (rule skip_until_ge)
  ultimately show ?case
    using 1(1) by linarith
qed

declare parse_loop.simps [simp del]

definition parseAsciiStl :: "string \<Rightarrow> Triangle list" where
  "parseAsciiStl text = parse_loop (lines_of text) 0 []"

section \<open>What the text decoder returns\<close>

text \<open>
  The blocks of a text, in the words of the format: a line is a \<open>p\<close> line when, trimmed,
  it starts with \<open>p\<close>. A facet block starts at a \<^verbatim>\<open>facet normal\<close> line \<open>i\<close>; its
  \<^verbatim>\<open>outer loop\<close> line is the first such line after \<open>i\<close>; the vertex lines found are the
  consecutive \<^verbatim>\<open>vertex\<close> lines directly after it, three at most being looked at; the
  block ends at the first \<^verbatim>\<open>endfacet\<close> line from there on (each of the two searches ends
  at the end of the text if there is no such line). \<open>facet_blocks\<close> lists the
  \<^verbatim>\<open>facet normal\<close> lines that start a block: the first one, then the first one after the
  end of each block.
\<close>

definition is_line :: "string \<Rightarrow> string \<Rightarrow> bool" where
  "is_line p l = startsWith (trim l) p"

definition first_from :: "(string \<Rightarrow> bool) \<Rightarrow> string list \<Rightarrow> nat \<Rightarrow> nat" where
  "first_from P lines i = i + length (takeWhile (\<lambda>l. \<not> P l) (drop i lines))"

definition outer_loop_of :: "string list \<Rightarrow> nat \<Rightarrow> nat" where
  "outer_loop_of lines i = first_from (is_line ''outer loop'') lines (i + 1)"

definition vertex_lines_found :: "string list \<Rightarrow> nat \<Rightarrow> nat" where
  "vertex_lines_found lines i =
     length (takeWhile (is_line ''vertex'') (take 3 (drop (outer_loop_of lines i + 1) lines)))"

definition block_end :: "string list \<Rightarrow> nat \<Rightarrow> nat" where
  "block_end lines i =
     first_from (is_line ''endfacet'') lines (outer_loop_of lines i + 1 + vertex_lines_found lines i)"

definition vertex_of_line :: "string \<Rightarrow> Vec3" where
  "vertex_of_line l = vec_of_values (map Number (drop 1 (split_ws (trim l))))"

definition block_triangle :: "string list \<Rightarrow> nat \<Rightarrow> Triangle" where
  "block_triangle lines i =
     \<lparr>normal = vec_of_values (parseFloatsFromLine (trim (lines ! i))),
      vertices = (vertex_of_line (lines ! (outer_loop_of lines i + 1)),
                  vertex_of_line (lines ! (outer_loop_of lines i + 2)),
                  vertex_of_line (lines ! (outer_loop_of lines i + 3)))\<rparr>"

lemma first_from_ge: "i \<le> first_from P lines i"
  by (simp add: first_from_def)

lemma block_end_gt: "i < block_end lines i"
proof -
  have "i + 1 \<le> outer_loop_of lines i"
    unfolding outer_loop_of_def by (rule first_from_ge)
  moreover have "outer_loop_of lines i + 1 + vertex_lines_found lines i \<le> block_end lines i"
    unfolding block_end_def by (rule first_from_ge)
  ultimately show ?thesis by simp
qed

function facet_blocks :: "string list \<Rightarrow> nat \<Rightarrow> nat list" where
  "facet_blocks lines i =
     (if i < length lines
      then (if is_line ''facet normal'' (lines ! i)
            then i # facet_blocks lines (block_end lines i + 1)
            else facet_blocks lines (i + 1))
      else [])"
  by pat_completeness auto
termination
proof (relation "measure (\<lambda>(lines, i). length lines - i)", goal_cases)
  case 1
  show ?case by simp
next
  case (2 lines i)
  then show ?case using block_end_gt [of i lines] by simp
next
  case (3 lines i)
  then show ?case by simp
qed

declare facet_blocks.simps [simp del]


section \<open>Well-formed inputs and the inputs of the examples\<close>

text \<open>
  The data model takes the coordinates of a vector to be finite numbers. The functions
  below say so of a vector, a triangle (its three vertices; the stored normal is never
  read by the geometry) and a mesh.
\<close>

fun finite_vec :: "Vec3 \<Rightarrow> bool" where
  "finite_vec (x, y, z) = (isFinite x \<and> isFinite y \<and> isFinite z)"

definition finite_triangle :: "Triangle \<Rightarrow> bool" where
  "finite_triangle t = (case vertices t of (a, b, c) \<Rightarrow> finite_vec a \<and> finite_vec b \<and> finite_vec c)"


text \<open>
  A triangle in the plane \<open>z = 0\<close> (the one of the scenario with area 1/2), and one
  whose bounding box is the unit-height box from the origin to \<open>(2, 1, 1)\<close>.
\<close>

definition flat_triangle :: Triangle where
  "flat_triangle = \<lparr>normal = (Fin 0, Fin 0, Fin 1),
     vertices = ((Fin 0, Fin 0, Fin 0), (Fin 1, Fin 0, Fin 0), (Fin 0, Fin 1, Fin 0))\<rparr>"

definition skew_triangle :: Triangle where
  "skew_triangle = \<lparr>normal = (Fin 0, Fin 0, Fin 0),
     vertices = ((Fin 0, Fin 0, Fin 0), (Fin 2, Fin 1, Fin 1), (Fin 1, Fin 0, Fin 0))\<rparr>"


text \<open>
  The value of \<^verbatim>\<open>aabbIou\<close> at twice the same box, from the volume the code computes for
  it.
\<close>

definition self_iou :: "number \<Rightarrow> number" where
  "self_iou volume =
     (case volume of
        Fin v \<Rightarrow> if 0 < v \<and> 2 * v < pow2 1024 then Fin 1 else Fin 0
      | _ \<Rightarrow> Fin 0)"

text \<open>A buffer of \<open>n\<close> zero bytes: its count field, if it has one, is 0.\<close>

definition zero_buffer :: "nat \<Rightarrow> byte list" where
  "zero_buffer n = replicate n 0"














text \<open>The random source that returns 1/4 at every call.\<close>

definition quarter_rng :: "nat \<Rightarrow> number" where
  "quarter_rng i = Fin (1 / 4)"





section \<open>What the Chamfer statistics are\<close>

text \<open>
  The statistics as the specification words them, on points with real coordinates and
  in double arithmetic: the Euclidean distance of two points is the rounded square root
  of the rounded sum of the rounded squares of the rounded differences, and is infinite
  when a square or the sum overflows; for each point of the source the least of its
  distances to the points of the target; these least distances sorted ascending; their
  arithmetic average, summed from the first to the last; the value at index
  \<open>floor (0.95 * count)\<close> clamped to the last index; and (with \<^const>\<open>last\<close>) the last
  value. \<open>vec\<close> is the point as the code has it, \<open>rank\<close> the place of a number in the
  order of the numbers.
\<close>

type_synonym point = "real \<times> real \<times> real"

fun vec :: "point \<Rightarrow> Vec3" where
  "vec (x, y, z) = (Fin x, Fin y, Fin z)"

definition square :: "number \<Rightarrow> number" where
  "square d = num_mul d d"

fun distance :: "point \<Rightarrow> point \<Rightarrow> number" where
  "distance (x, y, z) (x', y', z') =
     math_sqrt (num_add (num_add (square (num_sub (Fin x) (Fin x'))) (square (num_sub (Fin y) (Fin y'))))
                  (square (num_sub (Fin z) (Fin z'))))"

fun rank :: "number \<Rightarrow> int \<times> real" where
  "rank NInf = (- 1, 0)"
| "rank (Fin x) = (0, x)"
| "rank PInf = (1, 0)"
| "rank NaN = (2, 0)"

definition least_distance :: "point \<Rightarrow> point list \<Rightarrow> number" where
  "least_distance p target = arg_min_list rank (map (distance p) target)"

definition min_distances :: "point list \<Rightarrow> point list \<Rightarrow> number list" where
  "min_distances source target = sort_key rank (map (\<lambda>p. least_distance p target) source)"

definition average :: "number list \<Rightarrow> number" where
  "average ds = num_div (foldl num_add (Fin 0) ds) (Fin (real (length ds)))"

definition percentile95 :: "number list \<Rightarrow> number" where
  "percentile95 ds = ds ! min (length ds - 1) (nat \<lfloor>95 / 100 * real (length ds)\<rfloor>)"

text \<open>
  The Euclidean distance of two points in exact arithmetic, and two pairs of clouds for
  the examples: the origin and a point on each of two axes; the origin and a point at
  \<open>2^512\<close> on the first axis.
\<close>

fun euclid :: "point \<Rightarrow> point \<Rightarrow> real" where
  "euclid (x, y, z) (x', y', z') = sqrt ((x - x')\<^sup>2 + (y - y')\<^sup>2 + (z - z')\<^sup>2)"

definition cloud_origin :: "point list" where
  "cloud_origin = [(0, 0, 0)]"

definition cloud_axes :: "point list" where
  "cloud_axes = [(3, 0, 0), (0, 4, 0)]"

definition cloud_far :: "point list" where
  "cloud_far = [(pow2 512, 0, 0)]"

text \<open>A number that a distance or a squared distance can be: a double that is not negative, or infinite.\<close>

definition magnitude :: "number \<Rightarrow> bool" where
  "magnitude x = (x = PInf \<or> (\<exists>d. x = Fin d \<and> 0 \<le> d \<and> is_double d))"

section \<open>The metric bundle (bench)\<close>

record Metrics =
  aabbIou_value :: number
  surfaceAreaRatio :: number
  volumeRatio :: number
  chamfer :: ChamferStats

text \<open>
  \<^verbatim>\<open>compareAsciiStlText\<close>. The two meshes are sampled with the default random source,
  one after the other: the second sampling goes on where the first one stopped.
\<close>

definition sampleN :: int where
  "sampleN = 2000"

definition ratio :: "number \<Rightarrow> number \<Rightarrow> number" where
  "ratio gen src =
     (if num_gt gen (Fin 0) \<and> num_gt src (Fin 0)
      then num_div (math_min gen src) (math_max gen src) else Fin 0)"

definition compareAsciiStlText :: "(nat \<Rightarrow> number) \<Rightarrow> string \<Rightarrow> string \<Rightarrow> Metrics result" where
  "compareAsciiStlText rng srcText genText =
     (let srcTris = parseAsciiStl srcText;
          genTris = parseAsciiStl genText;
          aabbSrc = aabbOfTriangles srcTris;
          aabbGen = aabbOfTriangles genTris;
          iou = aabbIou aabbSrc aabbGen;
          areaSrc = surfaceArea srcTris;
          areaGen = surfaceArea genTris;
          volSrc = math_abs (signedVolume srcTris);
          volGen = math_abs (signedVolume genTris)
      in case sampleSurfacePoints srcTris sampleN rng 0 of
           None \<Rightarrow> None
         | Some (Inl e) \<Rightarrow> Some (Inl e)
         | Some (Inr (ptsSrc, k)) \<Rightarrow>
             (case sampleSurfacePoints genTris sampleN rng k of
                None \<Rightarrow> None
              | Some (Inl e) \<Rightarrow> Some (Inl e)
              | Some (Inr (ptsGen, k')) \<Rightarrow>
                  (let stats = chamferDistance ptsSrc ptsGen;
                       diag = math_max (rnd (1 / 10 ^ 9))
                                (math_max (aabbDiagonal aabbSrc) (aabbDiagonal aabbGen));
                       scaledChamfer =
                         \<lparr>meanAB = num_div (meanAB stats) diag,
                          meanBA = num_div (meanBA stats) diag,
                          p95AB = num_div (p95AB stats) diag,
                          p95BA = num_div (p95BA stats) diag,
                          maxAB = num_div (maxAB stats) diag,
                          maxBA = num_div (maxBA stats) diag\<rparr>
                   in Some (Inr \<lparr>aabbIou_value = iou,
                                  surfaceAreaRatio = ratio areaGen areaSrc,
                                  volumeRatio = ratio volGen volSrc,
                                  chamfer = scaledChamfer\<rparr>))))"

text \<open>An ASCII STL text of one triangle, the flat one of the scenario.\<close>

definition one_triangle_text :: string where
  "one_triangle_text = join [CHR 0x0A]
     [''solid t'', ''  facet normal 0 0 1'', ''    outer loop'', ''      vertex 0 0 0'',
      ''      vertex 1 0 0'', ''      vertex 0 1 0'', ''    endloop'', ''  endfacet'', ''endsolid t'']"

section \<open>Writing ASCII STL (bin2ascii)\<close>

subsection \<open>Number.prototype.toFixed\<close>

text \<open>The decimal digits of a natural number.\<close>

definition digit_char :: "nat \<Rightarrow> char" where
  "digit_char d = ''0123456789'' ! (d mod 10)"

function dec_digits :: "nat \<Rightarrow> string" where
  "dec_digits n = (if n < 10 then [digit_char n] else dec_digits (n div 10) @ [digit_char (n mod 10)])"
  by pat_completeness auto
termination
  by (relation "measure id") auto

declare dec_digits.simps [simp del]

text \<open>
  \<^verbatim>\<open>x.toFixed(f)\<close> for a finite \<open>x\<close> below \<open>10^21\<close> in magnitude, as ECMAScript words
  it: the sign, then the digits of the integer \<open>n\<close> for which \<open>n / 10^f\<close> is nearest to
  the magnitude (the larger one of two), padded with zeros to \<open>f + 1\<close> digits, with a
  point in front of the last \<open>f\<close> digits when \<open>f\<close> is not 0.
\<close>

definition fixed_digits :: "real \<Rightarrow> nat \<Rightarrow> string" where
  "fixed_digits x f =
     (let n = nat \<lfloor>\<bar>x\<bar> * 10 ^ f + 1 / 2\<rfloor>;
          m = dec_digits n;
          m = (if length m \<le> f then replicate (f + 1 - length m) CHR ''0'' @ m else m);
          k = length m
      in (if x < 0 then ''-'' else '''') @
         (if f \<noteq> 0 then take (k - f) m @ ''.'' @ drop (k - f) m else m))"

text \<open>
  From \<open>10^21\<close> on \<^verbatim>\<open>toFixed\<close> returns the exponential notation of the number, whose
  digits are those of the shortest decimal that rounds to the double: it is not
  modelled, and stands as the parameter \<open>toStr\<close>. A number of fraction digits above 100
  is a \<open>RangeError\<close>.
\<close>

definition toFixed :: "(real \<Rightarrow> string) \<Rightarrow> real \<Rightarrow> nat \<Rightarrow> error + string" where
  "toFixed toStr x f =
     (if 100 < f then Inl RangeError
      else if 10 ^ 21 \<le> \<bar>x\<bar> then Inr (toStr x)
      else Inr (fixed_digits x f))"

subsection \<open>trimTrailingZeros, formatFloat and trianglesToAscii\<close>

text \<open>
  \<^verbatim>\<open>s.replace(/\.0+$/u, '')\<close>: a point followed by zeros up to the end is removed with
  them. \<^verbatim>\<open>s.replace(/(\.\d*?)0+$/u, '$1')\<close>: when the string ends with a point, digits
  and at least one zero, its zeros at the end are removed. In both the point is the last
  one of the string, read here from the end.
\<close>

definition is_zero :: "char \<Rightarrow> bool" where
  "is_zero c = (c = CHR ''0'')"

definition drop_point_zeros :: "string \<Rightarrow> string" where
  "drop_point_zeros s =
     (let r = rev s; zs = takeWhile is_zero r; rest = dropWhile is_zero r
      in if zs \<noteq> [] \<and> rest \<noteq> [] \<and> hd rest = CHR ''.'' then rev (tl rest) else s)"

definition drop_fraction_zeros :: "string \<Rightarrow> string" where
  "drop_fraction_zeros s =
     (let r = rev s; zs = takeWhile is_zero r; rest = dropWhile is_zero r;
          rest2 = dropWhile is_digit rest
      in if zs \<noteq> [] \<and> rest2 \<noteq> [] \<and> hd rest2 = CHR ''.'' then rev rest else s)"

definition trimTrailingZeros :: "string \<Rightarrow> string" where
  "trimTrailingZeros numStr =
     (if CHR ''.'' \<notin> set numStr then numStr
      else drop_fraction_zeros (drop_point_zeros numStr))"

definition formatFloat :: "(real \<Rightarrow> string) \<Rightarrow> number \<Rightarrow> nat \<Rightarrow> error + string" where
  "formatFloat toStr value precision =
     (case value of
        Fin x \<Rightarrow>
          (case toFixed toStr x precision of
             Inl e \<Rightarrow> Inl e
           | Inr fixed \<Rightarrow> Inr (trimTrailingZeros fixed))
      | _ \<Rightarrow> Inr ''0'')"

text \<open>The three numbers of a vector, formatted and separated by one space.\<close>

fun format_vec :: "(real \<Rightarrow> string) \<Rightarrow> Vec3 \<Rightarrow> nat \<Rightarrow> error + string" where
  "format_vec toStr (x, y, z) precision =
     (case formatFloat toStr x precision of
        Inl e \<Rightarrow> Inl e
      | Inr a \<Rightarrow>
          (case formatFloat toStr y precision of
             Inl e \<Rightarrow> Inl e
           | Inr b \<Rightarrow>
               (case formatFloat toStr z precision of
                  Inl e \<Rightarrow> Inl e
                | Inr c \<Rightarrow> Inr (a @ '' '' @ b @ '' '' @ c))))"

text \<open>The seven lines of a triangle, two of them with numbers.\<close>

definition facet_line :: "string \<Rightarrow> string" where
  "facet_line n = ''  facet normal '' @ n"

definition vertex_line :: "string \<Rightarrow> string" where
  "vertex_line v = ''      vertex '' @ v"

definition facet_lines :: "(real \<Rightarrow> string) \<Rightarrow> Triangle \<Rightarrow> nat \<Rightarrow> error + string list" where
  "facet_lines toStr tri precision =
     (case vertices tri of
        (v1, v2, v3) \<Rightarrow>
          (case format_vec toStr (normal tri) precision of
             Inl e \<Rightarrow> Inl e
           | Inr n \<Rightarrow>
               (case format_vec toStr v1 precision of
                  Inl e \<Rightarrow> Inl e
                | Inr a \<Rightarrow>
                    (case format_vec toStr v2 precision of
                       Inl e \<Rightarrow> Inl e
                     | Inr b \<Rightarrow>
                         (case format_vec toStr v3 precision of
                            Inl e \<Rightarrow> Inl e
                          | Inr c \<Rightarrow>
                              Inr [facet_line n, ''    outer loop'',
                                   vertex_line a, vertex_line b, vertex_line c,
                                   ''    endloop'', ''  endfacet''])))))"

fun all_facet_lines :: "(real \<Rightarrow> string) \<Rightarrow> Triangle list \<Rightarrow> nat \<Rightarrow> error + string list" where
  "all_facet_lines toStr [] precision = Inr []"
| "all_facet_lines toStr (tri # triangles) precision =
     (case facet_lines toStr tri precision of
        Inl e \<Rightarrow> Inl e
      | Inr ls \<Rightarrow>
          (case all_facet_lines toStr triangles precision of
             Inl e \<Rightarrow> Inl e
           | Inr rest \<Rightarrow> Inr (ls @ rest)))"

definition trianglesToAscii :: "(real \<Rightarrow> string) \<Rightarrow> Triangle list \<Rightarrow> string \<Rightarrow> nat \<Rightarrow> error + string" where
  "trianglesToAscii toStr triangles solidName precision =
     (case all_facet_lines toStr triangles precision of
        Inl e \<Rightarrow> Inl e
      | Inr ls \<Rightarrow> Inr (join [CHR 0x0A] ((''solid '' @ solidName) # ls @ [''endsolid '' @ solidName])))"

section \<open>The round trip through the ASCII writer\<close>

text \<open>
  A digit string without its zeros at the end, and the tokens the writer produces:
  digits, a point, a sign and the exponent mark, with no white space.
\<close>

definition strip_zeros :: "string \<Rightarrow> string" where
  "strip_zeros b = rev (dropWhile is_zero (rev b))"

definition plain_char :: "char \<Rightarrow> bool" where
  "plain_char c = (is_digit c \<or> c = CHR ''.'' \<or> c = CHR ''-'' \<or> c = CHR ''e'' \<or> c = CHR ''+'')"

definition plain_token :: "string \<Rightarrow> bool" where
  "plain_token w = (w \<noteq> [] \<and> list_all plain_char w)"

text \<open>
  A number whose text the model of \<^verbatim>\<open>toFixed\<close> gives: any non-finite one (written as
  \<^verbatim>\<open>0\<close>) and the finite ones below \<open>10^21\<close> in magnitude. Two numbers are near when both
  are finite and differ by at most \<open>10^-6\<close>; the comparison is false for a non-finite one,
  as \<^verbatim>\<open>Math.abs(a - b) <= 1e-6\<close> is.
\<close>

fun printable :: "number \<Rightarrow> bool" where
  "printable (Fin x) = (\<bar>x\<bar> < 10 ^ 21)"
| "printable _ = True"

fun near :: "number \<Rightarrow> number \<Rightarrow> bool" where
  "near (Fin a) (Fin b) = (\<bar>a - b\<bar> \<le> 1 / 10 ^ 6)"
| "near _ _ = False"

fun printable_vec :: "Vec3 \<Rightarrow> bool" where
  "printable_vec (x, y, z) = (printable x \<and> printable y \<and> printable z)"

definition printable_triangle :: "Triangle \<Rightarrow> bool" where
  "printable_triangle t =
     (printable_vec (normal t) \<and> finite_triangle t \<and>
      (case vertices t of (a, b, c) \<Rightarrow> printable_vec a \<and> printable_vec b \<and> printable_vec c))"

definition printable_mesh :: "Triangle list \<Rightarrow> bool" where
  "printable_mesh triangles = list_all printable_triangle triangles"

fun near_vec :: "Vec3 \<Rightarrow> Vec3 \<Rightarrow> bool" where
  "near_vec (x, y, z) (x', y', z') = (near x x' \<and> near y y' \<and> near z z')"

definition near_vertices :: "Triangle \<Rightarrow> Triangle \<Rightarrow> bool" where
  "near_vertices t t' =
     (case (vertices t, vertices t') of
        ((a, b, c), (a', b', c')) \<Rightarrow> near_vec a a' \<and> near_vec b b' \<and> near_vec c c')"

text \<open>
  The shape of the written lines: a word has no white space, the text of a vector is
  three words separated by one space, and the seven lines of a facet are indented as
  the writer indents them. A line is one piece of the text when it has no line break.
\<close>

definition word :: "string \<Rightarrow> bool" where
  "word w = (w \<noteq> [] \<and> (\<forall>c \<in> set w. \<not> is_space c))"

definition vec_text :: "string \<Rightarrow> bool" where
  "vec_text vs = (\<exists>a b c. word a \<and> word b \<and> word c \<and> vs = a @ '' '' @ b @ '' '' @ c)"

definition read_vec :: "string \<Rightarrow> Vec3" where
  "read_vec vs = vec_of_values (map Number (split_ws vs))"

definition block7 :: "string \<Rightarrow> string \<Rightarrow> string \<Rightarrow> string \<Rightarrow> string list" where
  "block7 n a b c =
     [facet_line n, ''    outer loop'', vertex_line a, vertex_line b, vertex_line c,
      ''    endloop'', ''  endfacet'']"

definition line_ok :: "string \<Rightarrow> bool" where
  "line_ok l = (CHR 0x0A \<notin> set l \<and> CHR 0x0D \<notin> set l)"

text \<open>
  Three texts of one triangle: one with a coordinate of seven decimals, what the
  writer makes of it at precision 6, and one with the coordinate \<^verbatim>\<open>Infinity\<close>, which
  \<^verbatim>\<open>Number\<close> reads as the infinite value.
\<close>

definition fraction_text :: string where
  "fraction_text = join [CHR 0x0A]
     [''solid t'', ''  facet normal 0 0 1'', ''    outer loop'', ''      vertex 0.1234567 0 0'',
      ''      vertex 1 0 0'', ''      vertex 0 1 0'', ''    endloop'', ''  endfacet'', ''endsolid t'']"

definition fraction_triangle :: Triangle where
  "fraction_triangle = \<lparr>normal = (Fin 0, Fin 0, Fin 1),
     vertices = ((Fin (1234567 / 10000000), Fin 0, Fin 0), (Fin 1, Fin 0, Fin 0), (Fin 0, Fin 1, Fin 0))\<rparr>"

definition rounded_text :: string where
  "rounded_text = join [CHR 0x0A]
     [''solid t'', ''  facet normal 0 0 1'', ''    outer loop'', ''      vertex 0.123457 0 0'',
      ''      vertex 1 0 0'', ''      vertex 0 1 0'', ''    endloop'', ''  endfacet'', ''endsolid t'']"

definition rounded_triangle :: Triangle where
  "rounded_triangle = \<lparr>normal = (Fin 0, Fin 0, Fin 1),
     vertices = ((Fin (123457 / 1000000), Fin 0, Fin 0), (Fin 1, Fin 0, Fin 0), (Fin 0, Fin 1, Fin 0))\<rparr>"

definition infinity_text :: string where
  "infinity_text = join [CHR 0x0A]
     [''solid t'', ''  facet normal 0 0 1'', ''    outer loop'', ''      vertex Infinity 0 0'',
      ''      vertex 1 0 0'', ''      vertex 0 1 0'', ''    endloop'', ''  endfacet'', ''endsolid t'']"

definition infinite_triangle :: Triangle where
  "infinite_triangle = \<lparr>normal = (Fin 0, Fin 0, Fin 1),
     vertices = ((PInf, Fin 0, Fin 0), (Fin 1, Fin 0, Fin 0), (Fin 0, Fin 1, Fin 0))\<rparr>"

section \<open>Properties\<close>

subsection \<open>Rounding to the nearest double\<close>

lemma pow2_pos: "0 < pow2 e"
  by (simp add: pow2_def)

lemma pow2_nonneg: "0 \<le> pow2 e"
  by (simp add: pow2_def)

lemma pow2_add: "pow2 (a + b) = pow2 a * pow2 b"
  by (simp add: pow2_def power_int_add)

lemma pow2_diff: "pow2 (a - b) = pow2 a / pow2 b"
  by (simp add: pow2_def power_int_diff)

lemma pow2_0: "pow2 0 = 1"
  by (simp add: pow2_def)

lemma pow2_1: "pow2 1 = 2"
  by (simp add: pow2_def)

lemma pow2_Suc: "pow2 (e + 1) = 2 * pow2 e"
  by (simp add: pow2_add pow2_1)

lemma pow2_nat: "pow2 (int n) = 2 ^ n"
  by (simp add: pow2_def)

lemma pow2_mono: "a \<le> b \<Longrightarrow> pow2 a \<le> pow2 b"
  by (simp add: pow2_def power_int_increasing)

lemma pow2_strict_mono: "a < b \<Longrightarrow> pow2 a < pow2 b"
  by (simp add: pow2_def power_int_strict_increasing)

lemma pow2_less_iff: "pow2 a < pow2 b \<longleftrightarrow> a < b"
  using pow2_mono [of b a] pow2_strict_mono [of a b] by (auto simp: not_le [symmetric])

lemma pow2_le_iff: "pow2 a \<le> pow2 b \<longleftrightarrow> a \<le> b"
  using pow2_mono [of a b] pow2_strict_mono [of b a] by (auto simp: not_less [symmetric])

lemma pow2_int: "0 \<le> e \<Longrightarrow> pow2 e = of_int (2 ^ nat e)"
  by (simp add: pow2_def power_int_nonneg_exp)

lemma round_even_cases:
  "round_even q = \<lfloor>q\<rfloor> \<or> round_even q = \<lfloor>q\<rfloor> + 1"
  by (simp add: round_even_def Let_def)

lemma round_even_int: "round_even (of_int k) = k"
  by (simp add: round_even_def)

lemma round_even_error: "\<bar>of_int (round_even q) - q\<bar> \<le> 1 / 2"
  unfolding round_even_def Let_def by (auto simp: abs_if) (linarith+)?

lemma round_even_nearest: "\<bar>of_int (round_even q) - q\<bar> \<le> \<bar>of_int j - q\<bar>"
proof (cases "j \<le> \<lfloor>q\<rfloor>")
  case True
  then have "of_int j \<le> (of_int \<lfloor>q\<rfloor> :: real)" by simp
  moreover have "of_int \<lfloor>q\<rfloor> \<le> q" by simp
  ultimately have "q - of_int \<lfloor>q\<rfloor> \<le> \<bar>of_int j - q\<bar>" by linarith
  moreover have "\<bar>of_int (round_even q) - q\<bar> \<le> q - of_int \<lfloor>q\<rfloor>"
    unfolding round_even_def Let_def by (auto simp: abs_if) (linarith+)?
  ultimately show ?thesis by linarith
next
  case False
  then have "\<lfloor>q\<rfloor> + 1 \<le> j" by simp
  then have "of_int \<lfloor>q\<rfloor> + 1 \<le> (of_int j :: real)" by linarith
  moreover have "q < of_int \<lfloor>q\<rfloor> + 1" by linarith
  ultimately have "of_int \<lfloor>q\<rfloor> + 1 - q \<le> \<bar>of_int j - q\<bar>" by linarith
  moreover have "\<bar>of_int (round_even q) - q\<bar> \<le> of_int \<lfloor>q\<rfloor> + 1 - q"
    unfolding round_even_def Let_def by (auto simp: abs_if) (linarith+)?
  ultimately show ?thesis by linarith
qed

lemma round_even_mono:
  assumes "q \<le> q'"
  shows "round_even q \<le> round_even q'"
proof (cases "\<lfloor>q\<rfloor> = \<lfloor>q'\<rfloor>")
  case True
  with assms show ?thesis
    unfolding round_even_def Let_def by (auto simp: not_less)
next
  case False
  with assms have "\<lfloor>q\<rfloor> < \<lfloor>q'\<rfloor>"
    using floor_mono [of q q'] by linarith
  moreover have "round_even q \<le> \<lfloor>q\<rfloor> + 1" "\<lfloor>q'\<rfloor> \<le> round_even q'"
    using round_even_cases [of q] round_even_cases [of q'] by auto
  ultimately show ?thesis by linarith
qed

lemma round_even_minus: "round_even (- q) = - round_even q"
proof (cases "q = of_int \<lfloor>q\<rfloor>")
  case True
  have "round_even (of_int (- \<lfloor>q\<rfloor>)) = - round_even (of_int \<lfloor>q\<rfloor>)"
    by (simp only: round_even_int)
  with True show ?thesis
    by simp
next
  case False
  then have lt: "of_int \<lfloor>q\<rfloor> < q"
    using of_int_floor_le [of q] by linarith
  have fl: "\<lfloor>- q\<rfloor> = - \<lfloor>q\<rfloor> - 1"
    by (rule floor_unique) (use lt in simp_all, linarith)
  show ?thesis
    unfolding round_even_def Let_def fl by (auto simp: not_less) 
qed

lemma round_even_ge: "of_int k \<le> q \<Longrightarrow> k \<le> round_even q"
  using round_even_mono [of "of_int k" q] by (simp add: round_even_int)

lemma round_even_le: "q \<le> of_int k \<Longrightarrow> round_even q \<le> k"
  using round_even_mono [of q "of_int k"] by (simp add: round_even_int)

lemma powr_pow2: "2 powr real_of_int k = pow2 k"
  by (simp add: pow2_def powr_real_of_int')

lemma powr_pow2_Suc: "2 powr (real_of_int k + 1) = pow2 (k + 1)"
  using powr_pow2 [of "k + 1"] by simp

lemma floor_log_bounds:
  assumes "0 < x"
  shows "pow2 \<lfloor>log 2 x\<rfloor> \<le> x" "x < pow2 (\<lfloor>log 2 x\<rfloor> + 1)"
  using floor_log_eq_powr_iff [of x 2 "\<lfloor>log 2 x\<rfloor>"] assms by (simp_all add: powr_pow2 powr_pow2_Suc)

lemma binade_bounds:
  assumes "pow2 (- 1022) \<le> \<bar>x\<bar>"
  shows "pow2 (binade x) \<le> \<bar>x\<bar>" "\<bar>x\<bar> < pow2 (binade x + 1)"
proof -
  have "0 < \<bar>x\<bar>"
    using assms pow2_pos [of "- 1022"] by linarith
  then show "pow2 (binade x) \<le> \<bar>x\<bar>" "\<bar>x\<bar> < pow2 (binade x + 1)"
    using assms floor_log_bounds [of "\<bar>x\<bar>"] by (simp_all add: binade_def)
qed

lemma binade_small: "\<bar>x\<bar> < pow2 (- 1022) \<Longrightarrow> binade x = - 1022"
  by (simp add: binade_def)

lemma binade_upper: "\<bar>x\<bar> < pow2 (binade x + 1)"
proof (cases "\<bar>x\<bar> < pow2 (- 1022)")
  case True
  moreover have "pow2 (- 1022) < pow2 (- 1022 + 1)"
    by (rule pow2_strict_mono) simp
  ultimately show ?thesis
    by (simp add: binade_small)
next
  case False
  then show ?thesis
    by (intro binade_bounds) simp
qed

lemma binade_ge: "- 1022 \<le> binade x"
proof (cases "\<bar>x\<bar> < pow2 (- 1022)")
  case True
  then show ?thesis by (simp add: binade_small)
next
  case False
  then have "pow2 (- 1022) < pow2 (binade x + 1)"
    using binade_upper [of x] by linarith
  then show ?thesis
    by (simp add: pow2_less_iff)
qed

lemma binade_eq:
  assumes "- 1022 \<le> e" "pow2 e \<le> \<bar>x\<bar>" "\<bar>x\<bar> < pow2 (e + 1)"
  shows "binade x = e"
proof -
  have "pow2 (- 1022) \<le> \<bar>x\<bar>"
    using pow2_mono [OF assms(1)] assms(2) by linarith
  moreover from this have "0 < \<bar>x\<bar>"
    using pow2_pos [of "- 1022"] by linarith
  ultimately show ?thesis
    using floor_log_eq_powr_iff [of "\<bar>x\<bar>" 2 e] assms(2,3)
    by (simp add: binade_def powr_pow2 powr_pow2_Suc)
qed

lemma binade_minus: "binade (- x) = binade x"
  by (simp add: binade_def)

lemma binade_mono:
  assumes "\<bar>x\<bar> \<le> \<bar>y\<bar>"
  shows "binade x \<le> binade y"
proof (cases "\<bar>x\<bar> < pow2 (- 1022)")
  case True
  then show ?thesis
    using binade_ge [of y] by (simp add: binade_small)
next
  case False
  then have "pow2 (binade x) \<le> \<bar>x\<bar>"
    by (intro binade_bounds) simp
  then have "pow2 (binade x) < pow2 (binade y + 1)"
    using assms binade_upper [of y] by linarith
  then show ?thesis
    by (simp add: pow2_less_iff)
qed

lemma ulp_pos: "0 < ulp x"
  by (simp add: ulp_def pow2_pos)

lemma ulp_minus: "ulp (- x) = ulp x"
  by (simp add: ulp_def binade_minus)

lemma round_double_ulp: "round_double x = of_int (round_even (x / ulp x)) * ulp x"
  by (simp add: round_double_def ulp_def Let_def)

lemma pow2_53: "pow2 53 = of_int (2 ^ 53)" "pow2 52 = of_int (2 ^ 52)"
  by (simp_all add: pow2_def)

lemma ulp_times: "ulp x * pow2 53 = pow2 (binade x + 1)" "ulp x * pow2 52 = pow2 (binade x)"
  using pow2_add [of "binade x - 52" 53] pow2_add [of "binade x - 52" 52]
  by (simp_all add: ulp_def add.commute)

lemma round_double_error: "\<bar>round_double x - x\<bar> \<le> ulp x / 2"
proof -
  have "round_double x - x = (of_int (round_even (x / ulp x)) - x / ulp x) * ulp x"
    using ulp_pos [of x] by (simp add: round_double_ulp field_simps)
  then have "\<bar>round_double x - x\<bar> = \<bar>of_int (round_even (x / ulp x)) - x / ulp x\<bar> * ulp x"
    using ulp_pos [of x] by (simp add: abs_mult)
  also have "\<dots> \<le> 1 / 2 * ulp x"
    using ulp_pos [of x] round_even_error [of "x / ulp x"] by (intro mult_right_mono) simp_all
  finally show ?thesis by simp
qed

lemma round_double_minus: "round_double (- x) = - round_double x"
  by (simp add: round_double_ulp ulp_minus round_even_minus)

lemma round_double_multiple:
  assumes "x = of_int k * ulp x"
  shows "round_double x = x"
proof -
  have "x / ulp x = of_int k"
    using ulp_pos [of x] by (subst assms) simp
  then show ?thesis
    using assms by (simp add: round_double_ulp round_even_int)
qed

lemma round_double_nearest_multiple: "\<bar>round_double x - x\<bar> \<le> \<bar>of_int j * ulp x - x\<bar>"
proof -
  have "round_double x - x = (of_int (round_even (x / ulp x)) - x / ulp x) * ulp x"
    using ulp_pos [of x] by (simp add: round_double_ulp field_simps)
  then have "\<bar>round_double x - x\<bar> = \<bar>of_int (round_even (x / ulp x)) - x / ulp x\<bar> * ulp x"
    using ulp_pos [of x] by (simp add: abs_mult)
  also have "\<dots> \<le> \<bar>of_int j - x / ulp x\<bar> * ulp x"
    using ulp_pos [of x] round_even_nearest [of "x / ulp x" j] by (intro mult_right_mono) simp_all
  also have "\<dots> = \<bar>(of_int j - x / ulp x) * ulp x\<bar>"
    using ulp_pos [of x] by (simp add: abs_mult)
  also have "(of_int j - x / ulp x) * ulp x = of_int j * ulp x - x"
    using ulp_pos [of x] by (simp add: field_simps)
  finally show ?thesis .
qed

lemma round_double_nonneg: "0 \<le> x \<Longrightarrow> 0 \<le> round_double x"
proof -
  assume "0 \<le> x"
  then have "of_int 0 \<le> x / ulp x"
    using ulp_pos [of x] by simp
  then have "0 \<le> round_even (x / ulp x)"
    by (rule round_even_ge)
  then show ?thesis
    using ulp_pos [of x] by (simp add: round_double_ulp)
qed

lemma round_double_upper:
  assumes "0 \<le> x"
  shows "round_double x \<le> pow2 (binade x + 1)"
proof -
  have "x < ulp x * pow2 53"
    using binade_upper [of x] assms by (simp add: ulp_times)
  then have "x / ulp x \<le> pow2 53"
    using ulp_pos [of x] by (simp add: field_simps)
  then have "round_even (x / ulp x) \<le> 2 ^ 53"
    unfolding pow2_53 by (rule round_even_le)
  then have "of_int (round_even (x / ulp x)) \<le> pow2 53"
    unfolding pow2_53 by (simp only: of_int_le_iff)
  then have "of_int (round_even (x / ulp x)) * ulp x \<le> pow2 53 * ulp x"
    using ulp_pos [of x] by (intro mult_right_mono) simp_all
  then show ?thesis
    by (simp add: round_double_ulp ulp_times [symmetric] mult.commute)
qed

lemma round_double_lower:
  assumes "pow2 (- 1022) \<le> x"
  shows "pow2 (binade x) \<le> round_double x"
proof -
  have x: "0 \<le> x" using assms pow2_pos [of "- 1022"] by linarith
  then have "ulp x * pow2 52 \<le> x"
    using binade_bounds(1) [of x] assms by (simp add: ulp_times)
  then have "pow2 52 \<le> x / ulp x"
    using ulp_pos [of x] by (simp add: field_simps)
  then have "2 ^ 52 \<le> round_even (x / ulp x)"
    unfolding pow2_53 by (rule round_even_ge)
  then have "pow2 52 \<le> of_int (round_even (x / ulp x))"
    unfolding pow2_53 by (simp only: of_int_le_iff)
  then have "pow2 52 * ulp x \<le> of_int (round_even (x / ulp x)) * ulp x"
    using ulp_pos [of x] by (intro mult_right_mono) simp_all
  then show ?thesis
    by (simp add: round_double_ulp ulp_times [symmetric] mult.commute)
qed

lemma round_double_mono_nonneg:
  assumes "0 \<le> x" "x \<le> y"
  shows "round_double x \<le> round_double y"
proof (cases "binade x = binade y")
  case True
  then have u: "ulp x = ulp y" by (simp add: ulp_def)
  have "x / ulp y \<le> y / ulp y"
    using assms ulp_pos [of y] by (simp add: divide_right_mono)
  then have "round_even (x / ulp y) \<le> round_even (y / ulp y)"
    by (rule round_even_mono)
  then have "of_int (round_even (x / ulp y)) * ulp y \<le> of_int (round_even (y / ulp y)) * ulp y"
    using ulp_pos [of y] by (intro mult_right_mono) simp_all
  then show ?thesis
    by (simp add: round_double_ulp u)
next
  case False
  have "binade x \<le> binade y"
    using assms by (intro binade_mono) simp
  with False have lt: "binade x + 1 \<le> binade y" by simp
  then have "binade y \<noteq> - 1022"
    using binade_ge [of x] by simp
  then have "pow2 (- 1022) \<le> \<bar>y\<bar>"
    using binade_small [of y] by fastforce
  then have "pow2 (- 1022) \<le> y"
    using assms by simp
  then have "pow2 (binade y) \<le> round_double y"
    by (rule round_double_lower)
  moreover have "round_double x \<le> pow2 (binade x + 1)"
    using assms(1) by (rule round_double_upper)
  moreover have "pow2 (binade x + 1) \<le> pow2 (binade y)"
    using lt by (rule pow2_mono)
  ultimately show ?thesis by linarith
qed

lemma round_double_mono:
  assumes "x \<le> y"
  shows "round_double x \<le> round_double y"
proof -
  consider "0 \<le> x" | "x < 0" "0 \<le> y" | "y < 0" by linarith
  then show ?thesis
  proof cases
    case 1
    then show ?thesis using assms by (rule round_double_mono_nonneg)
  next
    case 2
    then have "0 \<le> round_double (- x)" "0 \<le> round_double y"
      by (simp_all add: round_double_nonneg)
    then show ?thesis
      by (simp add: round_double_minus)
  next
    case 3
    then have "round_double (- y) \<le> round_double (- x)"
      using assms by (intro round_double_mono_nonneg) simp_all
    then show ?thesis
      by (simp add: round_double_minus)
  qed
qed

lemma is_double_minus: "is_double x \<Longrightarrow> is_double (- x)"
proof -
  assume "is_double x"
  then obtain m e where "\<bar>m\<bar> < 2 ^ 53" "- 1074 \<le> e" "e \<le> 971" "x = of_int m * pow2 e"
    unfolding is_double_def by blast
  then have "\<bar>- m\<bar> < 2 ^ 53 \<and> - 1074 \<le> e \<and> e \<le> 971 \<and> - x = of_int (- m) * pow2 e"
    by simp
  then show ?thesis
    unfolding is_double_def by blast
qed

lemma is_double_0: "is_double 0"
  unfolding is_double_def by (intro exI [of _ 0]) simp

lemma normal_or_small: "binade x = - 1022 \<or> pow2 (binade x) \<le> \<bar>x\<bar>"
proof (cases "\<bar>x\<bar> < pow2 (- 1022)")
  case True
  then show ?thesis by (simp add: binade_small)
next
  case False
  then have "pow2 (binade x) \<le> \<bar>x\<bar>"
    by (intro binade_bounds) simp
  then show ?thesis ..
qed

lemma double_multiple:
  assumes "is_double d" "binade x = - 1022 \<or> pow2 (binade x) \<le> \<bar>d\<bar>"
  shows "\<exists>j. d = of_int j * ulp x"
proof -
  from assms(1) obtain m e where m: "\<bar>m\<bar> < 2 ^ 53" and e: "- 1074 \<le> e" "e \<le> 971"
    and d: "d = of_int m * pow2 e"
    unfolding is_double_def by blast
  have "binade x - 52 \<le> e"
    using assms(2)
  proof
    assume "binade x = - 1022"
    with e show ?thesis by simp
  next
    assume "pow2 (binade x) \<le> \<bar>d\<bar>"
    moreover have "\<bar>d\<bar> = \<bar>of_int m\<bar> * pow2 e"
      using pow2_pos [of e] by (simp add: d abs_mult)
    moreover have "\<bar>of_int m :: real\<bar> < pow2 53"
      unfolding pow2_53 using m by linarith
    then have "\<bar>of_int m\<bar> * pow2 e < pow2 53 * pow2 e"
      using pow2_pos [of e] by (intro mult_strict_right_mono) simp_all
    ultimately have "pow2 (binade x) < pow2 (53 + e)"
      by (simp add: pow2_add)
    then show ?thesis
      by (simp add: pow2_less_iff)
  qed
  then obtain k where k: "e = binade x - 52 + int k"
    using zle_iff_zadd by blast
  have "pow2 e = of_int (2 ^ k) * ulp x"
    unfolding k pow2_add ulp_def pow2_nat by simp
  then have "d = of_int (m * 2 ^ k) * ulp x"
    by (simp add: d)
  then show ?thesis ..
qed

lemma round_double_id:
  assumes "is_double x"
  shows "round_double x = x"
proof -
  obtain j where "x = of_int j * ulp x"
    using double_multiple [OF assms normal_or_small] by blast
  then show ?thesis
    by (rule round_double_multiple)
qed

lemma round_double_nearest:
  assumes "is_double d"
  shows "\<bar>round_double x - x\<bar> \<le> \<bar>d - x\<bar>"
proof (cases "binade x = - 1022 \<or> pow2 (binade x) \<le> \<bar>d\<bar>")
  case True
  then obtain j where "d = of_int j * ulp x"
    using double_multiple [OF assms] by blast
  then show ?thesis
    using round_double_nearest_multiple [of x j] by simp
next
  case False
  then have d: "\<bar>d\<bar> < pow2 (binade x)" and x: "pow2 (binade x) \<le> \<bar>x\<bar>"
    using normal_or_small [of x] by auto
  define s :: int where "s = (if 0 \<le> x then 1 else - 1)"
  have "of_int (s * 2 ^ 52) * ulp x = of_int s * (ulp x * pow2 52)"
    unfolding pow2_53 by simp
  then have eq: "of_int (s * 2 ^ 52) * ulp x = of_int s * pow2 (binade x)"
    unfolding ulp_times .
  have "\<bar>round_double x - x\<bar> \<le> \<bar>of_int s * pow2 (binade x) - x\<bar>"
    using round_double_nearest_multiple [of x "s * 2 ^ 52"] unfolding eq .
  also have "\<dots> = \<bar>x\<bar> - pow2 (binade x)"
    unfolding s_def using x pow2_pos [of "binade x"] by (cases "0 \<le> x") (auto simp: abs_if)
  also have "\<dots> \<le> \<bar>x\<bar> - \<bar>d\<bar>"
    using d by simp
  also have "\<dots> \<le> \<bar>d - x\<bar>"
    by simp
  finally show ?thesis .
qed

lemma round_even_range:
  assumes "0 \<le> x"
  shows "0 \<le> round_even (x / ulp x)" "round_even (x / ulp x) \<le> 2 ^ 53"
proof -
  have "of_int 0 \<le> x / ulp x"
    using assms ulp_pos [of x] by simp
  then show "0 \<le> round_even (x / ulp x)"
    by (rule round_even_ge)
  have "x < ulp x * pow2 53"
    using binade_upper [of x] assms by (simp add: ulp_times)
  then have "x / ulp x \<le> pow2 53"
    using ulp_pos [of x] by (simp add: field_simps)
  then show "round_even (x / ulp x) \<le> 2 ^ 53"
    unfolding pow2_53 by (rule round_even_le)
qed

lemma round_double_is_double_nonneg:
  assumes "0 \<le> x" "round_double x < pow2 1024"
  shows "is_double (round_double x)"
proof -
  define m where "m = round_even (x / ulp x)"
  have m: "0 \<le> m" "m \<le> 2 ^ 53"
    unfolding m_def using assms(1) by (rule round_even_range)+
  have rd: "round_double x = of_int m * pow2 (binade x - 52)"
    by (simp add: round_double_ulp m_def ulp_def)
  have b: "binade x < 1024"
  proof (rule ccontr)
    assume "\<not> binade x < 1024"
    then have big: "1024 \<le> binade x" by simp
    then have "pow2 (- 1022) \<le> \<bar>x\<bar>"
      using normal_or_small [of x] binade_bounds(1) [of x] binade_small [of x]
      by (cases "\<bar>x\<bar> < pow2 (- 1022)") auto
    then have "pow2 (binade x) \<le> round_double x"
      using assms(1) by (intro round_double_lower) simp
    moreover have "pow2 1024 \<le> pow2 (binade x)"
      using big by (rule pow2_mono)
    ultimately show False
      using assms(2) by linarith
  qed
  show ?thesis
  proof (cases "m = 2 ^ 53")
    case False
    with m have "\<bar>m\<bar> < 2 ^ 53" by simp
    moreover have "- 1074 \<le> binade x - 52" "binade x - 52 \<le> 971"
      using binade_ge [of x] b by simp_all
    ultimately show ?thesis
      unfolding is_double_def using rd by blast
  next
    case True
    then have "round_double x = ulp x * pow2 53"
      unfolding rd pow2_53 ulp_def by simp
    then have eq: "round_double x = pow2 (binade x + 1)"
      unfolding ulp_times .
    with assms(2) have "binade x + 1 < 1024"
      by (simp add: pow2_less_iff)
    then have "binade x - 51 \<le> 971" "- 1074 \<le> binade x - 51"
      using binade_ge [of x] by simp_all
    moreover have "pow2 (52 + (binade x - 51)) = pow2 52 * pow2 (binade x - 51)"
      by (rule pow2_add)
    then have "round_double x = of_int (2 ^ 52) * pow2 (binade x - 51)"
      unfolding eq pow2_53 [symmetric] by (simp add: add.commute)
    moreover have "\<bar>2 ^ 52 :: int\<bar> < 2 ^ 53"
      by simp
    ultimately show ?thesis
      unfolding is_double_def by blast
  qed
qed

lemma round_double_is_double:
  assumes "\<bar>round_double x\<bar> < pow2 1024"
  shows "is_double (round_double x)"
proof (cases "0 \<le> x")
  case True
  then show ?thesis
    using assms by (intro round_double_is_double_nonneg) simp_all
next
  case False
  then have "0 \<le> - x" by simp
  moreover have "round_double (- x) < pow2 1024"
    using assms by (simp add: round_double_minus)
  ultimately have "is_double (round_double (- x))"
    by (rule round_double_is_double_nonneg)
  then have "is_double (- round_double (- x))"
    by (rule is_double_minus)
  then show ?thesis
    by (simp add: round_double_minus)
qed

lemma round_double_close:
  "\<bar>round_double x - x\<bar> \<le> \<bar>x\<bar> * pow2 (- 53) + pow2 (- 1075)"
proof (cases "\<bar>x\<bar> < pow2 (- 1022)")
  case True
  then have "ulp x / 2 = pow2 (- 1075)"
    using pow2_add [of "- 1075" 1] by (simp add: ulp_def binade_small pow2_1)
  then show ?thesis
    using round_double_error [of x] pow2_nonneg [of "- 53"]
    by (smt (verit) abs_ge_zero mult_nonneg_nonneg)
next
  case False
  then have "pow2 (binade x) \<le> \<bar>x\<bar>"
    by (intro binade_bounds) simp
  moreover have "ulp x / 2 = pow2 (binade x) * pow2 (- 53)"
    using pow2_add [of "binade x" "- 53"] pow2_add [of "binade x - 53" 1]
    by (simp add: ulp_def pow2_1)
  ultimately have "ulp x / 2 \<le> \<bar>x\<bar> * pow2 (- 53)"
    using pow2_nonneg [of "- 53"] by (simp add: mult_right_mono)
  then show ?thesis
    using round_double_error [of x] pow2_nonneg [of "- 1075"] by linarith
qed

subsection \<open>Rounded arithmetic\<close>

lemma is_double_bound:
  assumes "is_double x"
  shows "\<bar>x\<bar> < pow2 1024"
proof -
  from assms obtain m e where m: "\<bar>m\<bar> < 2 ^ 53" and e: "e \<le> 971" and x: "x = of_int m * pow2 e"
    unfolding is_double_def by blast
  have "\<bar>of_int m :: real\<bar> < pow2 53"
    unfolding pow2_53 using m by linarith
  then have "\<bar>of_int m\<bar> * pow2 e < pow2 53 * pow2 e"
    using pow2_pos [of e] by (intro mult_strict_right_mono) simp_all
  also have "\<dots> = pow2 (53 + e)"
    by (simp add: pow2_add)
  also have "\<dots> \<le> pow2 1024"
    using e by (intro pow2_mono) simp
  finally show ?thesis
    using pow2_pos [of e] by (simp add: x abs_mult)
qed

lemma rnd_Fin_iff: "rnd x = Fin y \<longleftrightarrow> y = round_double x \<and> \<bar>round_double x\<bar> < pow2 1024"
  using pow2_pos [of 1024] by (auto simp: rnd_def Let_def abs_if)

lemma rnd_PInf_iff: "rnd x = PInf \<longleftrightarrow> pow2 1024 \<le> round_double x"
  using pow2_pos [of 1024] by (auto simp: rnd_def Let_def)

lemma rnd_NInf_iff: "rnd x = NInf \<longleftrightarrow> round_double x \<le> - pow2 1024"
  using pow2_pos [of 1024] by (auto simp: rnd_def Let_def)

lemma rnd_not_NaN: "rnd x \<noteq> NaN"
  by (simp add: rnd_def Let_def)

lemma rnd_double: "is_double x \<Longrightarrow> rnd x = Fin x"
  using is_double_bound [of x] by (simp add: rnd_Fin_iff round_double_id)

lemma rnd_is_double: "rnd x = Fin y \<Longrightarrow> is_double y"
  using round_double_is_double [of x] by (simp add: rnd_Fin_iff)

lemma rnd_minus: "rnd (- x) = num_neg (rnd x)"
  using pow2_pos [of 1024] by (auto simp: rnd_def Let_def round_double_minus)

lemma rnd_mono: "x \<le> y \<Longrightarrow> num_le (rnd x) (rnd y)"
  using round_double_mono [of x y] pow2_pos [of 1024] by (auto simp: rnd_def Let_def)

lemma rnd_nonneg: "0 \<le> x \<Longrightarrow> rnd x = PInf \<or> (\<exists>y. rnd x = Fin y \<and> 0 \<le> y)"
  using round_double_nonneg [of x] pow2_pos [of 1024] by (auto simp: rnd_def Let_def)

lemma is_double_int: "\<bar>k\<bar> \<le> 2 ^ 53 \<Longrightarrow> is_double (of_int k)"
proof (cases "\<bar>k\<bar> < 2 ^ 53")
  case True
  then have "\<bar>k\<bar> < 2 ^ 53 \<and> - 1074 \<le> (0::int) \<and> (0::int) \<le> 971 \<and> of_int k = of_int k * pow2 0"
    by (simp add: pow2_0)
  then show ?thesis
    unfolding is_double_def by blast
next
  case False
  assume "\<bar>k\<bar> \<le> 2 ^ 53"
  with False have "k = 2 ^ 53 \<or> k = - (2 ^ 53)" by linarith
  then have "of_int k = of_int (k div 2) * pow2 1" "\<bar>k div 2\<bar> < 2 ^ 53"
    by (auto simp: pow2_1)
  then have "\<bar>k div 2\<bar> < 2 ^ 53 \<and> - 1074 \<le> (1::int) \<and> (1::int) \<le> 971 \<and> of_int k = of_int (k div 2) * pow2 1"
    by simp
  then show ?thesis
    unfolding is_double_def by blast
qed

lemma is_double_dyadic:
  assumes "\<bar>k\<bar> < 2 ^ 53" "n \<le> 1074"
  shows "is_double (of_int k / 2 ^ n)"
proof -
  have "pow2 (- int n) = 1 / 2 ^ n"
    by (simp add: pow2_def power_int_minus field_simps)
  then have "of_int k / 2 ^ n = of_int k * pow2 (- int n)"
    by simp
  with assms have "\<bar>k\<bar> < 2 ^ 53 \<and> - 1074 \<le> - int n \<and> - int n \<le> 971 \<and> of_int k / 2 ^ n = of_int k * pow2 (- int n)"
    by simp
  then show ?thesis
    unfolding is_double_def by blast
qed

lemma rnd_int: "\<bar>k\<bar> \<le> 2 ^ 53 \<Longrightarrow> rnd (of_int k) = Fin (of_int k)"
  by (intro rnd_double is_double_int)

lemma rnd_small:
  "rnd 0 = Fin 0" "rnd 1 = Fin 1" "rnd (- 1) = Fin (- 1)"
  "numeral n \<le> (2 ^ 53 :: int) \<Longrightarrow> rnd (numeral n) = Fin (numeral n)"
  "numeral n \<le> (2 ^ 53 :: int) \<Longrightarrow> rnd (- numeral n) = Fin (- numeral n)"
  using rnd_int [of 0] rnd_int [of 1] rnd_int [of "- 1"] rnd_int [of "numeral n"] rnd_int [of "- numeral n"]
  by simp_all

lemma rnd_dyadic: "\<bar>k\<bar> < 2 ^ 53 \<Longrightarrow> n \<le> 1074 \<Longrightarrow> rnd (of_int k / 2 ^ n) = Fin (of_int k / 2 ^ n)"
  by (intro rnd_double is_double_dyadic)

lemma num_add_double: "num_add a b = Fin v \<Longrightarrow> is_double v"
  by (cases a; cases b) (auto dest: rnd_is_double)

lemma num_mul_double: "num_mul a b = Fin v \<Longrightarrow> is_double v"
  by (cases a; cases b) (auto simp: signed_inf_def dest: rnd_is_double split: if_splits)

lemma math_sqrt_double: "math_sqrt a = Fin v \<Longrightarrow> is_double v"
  by (cases a) (auto dest: rnd_is_double split: if_splits)

lemma is_double_twice:
  assumes "is_double v" "\<bar>2 * v\<bar> < pow2 1024"
  shows "is_double (2 * v)"
proof -
  from assms(1) obtain m e where m: "\<bar>m\<bar> < 2 ^ 53" and e: "- 1074 \<le> e" "e \<le> 971"
    and v: "v = of_int m * pow2 e"
    unfolding is_double_def by blast
  show ?thesis
  proof (cases "e < 971")
    case True
    have "2 * v = of_int m * pow2 (e + 1)"
      by (simp add: v pow2_Suc)
    with m e True have "\<bar>m\<bar> < 2 ^ 53 \<and> - 1074 \<le> e + 1 \<and> e + 1 \<le> 971 \<and> 2 * v = of_int m * pow2 (e + 1)"
      by simp
    then show ?thesis
      unfolding is_double_def by blast
  next
    case False
    with e have e971: "e = 971" by simp
    have "\<bar>2 * v\<bar> = \<bar>of_int (2 * m)\<bar> * pow2 971"
      using pow2_pos [of 971] by (simp add: v e971 abs_mult)
    moreover have "pow2 1024 = pow2 53 * pow2 971"
      using pow2_add [of 53 971] by simp
    ultimately have "\<bar>of_int (2 * m) :: real\<bar> < pow2 53"
      using assms(2) pow2_pos [of 971] by simp
    then have "\<bar>2 * m\<bar> < 2 ^ 53"
      unfolding pow2_53 by linarith
    moreover have "2 * v = of_int (2 * m) * pow2 971"
      by (simp add: v e971)
    ultimately have "\<bar>2 * m\<bar> < 2 ^ 53 \<and> - 1074 \<le> (971::int) \<and> (971::int) \<le> 971 \<and>
        2 * v = of_int (2 * m) * pow2 971"
      by simp
    then show ?thesis
      unfolding is_double_def by blast
  qed
qed

lemma round_double_pow2:
  assumes "- 1022 \<le> e"
  shows "round_double (pow2 e) = pow2 e"
proof -
  have "binade (pow2 e) = e"
    using assms pow2_pos [of e] pow2_strict_mono [of e "e + 1"] by (intro binade_eq) simp_all
  then have "pow2 e = of_int (2 ^ 52) * ulp (pow2 e)"
    using ulp_times(2) [of "pow2 e"] by (simp add: pow2_53 mult.commute)
  then show ?thesis
    by (rule round_double_multiple)
qed

lemma rnd_overflow:
  "pow2 1024 \<le> x \<Longrightarrow> rnd x = PInf"
  "x \<le> - pow2 1024 \<Longrightarrow> rnd x = NInf"
proof -
  have p: "round_double (pow2 1024) = pow2 1024"
    by (rule round_double_pow2) simp
  show "rnd x = PInf" if "pow2 1024 \<le> x"
    using round_double_mono [OF that] by (simp add: rnd_PInf_iff p)
  show "rnd x = NInf" if "x \<le> - pow2 1024"
    using round_double_mono [OF that] by (simp add: rnd_NInf_iff round_double_minus p)
qed

lemma rnd_twice:
  assumes "is_double v"
  shows "rnd (2 * v) =
     (if pow2 1024 \<le> 2 * v then PInf else if 2 * v \<le> - pow2 1024 then NInf else Fin (2 * v))"
proof (cases "\<bar>2 * v\<bar> < pow2 1024")
  case True
  then have "rnd (2 * v) = Fin (2 * v)"
    using assms by (intro rnd_double is_double_twice)
  with True show ?thesis
    by (auto simp: abs_if split: if_splits)
next
  case False
  then show ?thesis
    by (auto simp: rnd_overflow abs_if split: if_splits)
qed

lemma round_even_unique:
  assumes "\<bar>q - of_int k\<bar> < 1 / 2"
  shows "round_even q = k"
proof -
  have "\<bar>of_int (round_even q) - q\<bar> \<le> \<bar>of_int k - q\<bar>"
    by (rule round_even_nearest)
  with assms have "\<bar>of_int (round_even q) - (of_int k :: real)\<bar> < 1"
    by linarith
  then have "\<bar>of_int (round_even q - k) :: real\<bar> < 1"
    by simp
  then have "\<bar>round_even q - k\<bar> < 1"
    by linarith
  then show ?thesis by simp
qed

lemma round_double_unique:
  assumes "d = of_int i * ulp x" "\<bar>d - x\<bar> < ulp x / 2"
  shows "round_double x = d"
proof -
  have "x / ulp x - of_int i = (x - d) / ulp x"
    using ulp_pos [of x] by (simp add: assms(1) field_simps)
  then have "\<bar>x / ulp x - of_int i\<bar> = \<bar>d - x\<bar> / ulp x"
    using ulp_pos [of x] by (simp add: abs_minus_commute)
  also have "\<dots> < 1 / 2"
    using assms(2) ulp_pos [of x] by (simp add: field_simps)
  finally have "round_even (x / ulp x) = i"
    by (rule round_even_unique)
  then show ?thesis
    by (simp add: round_double_ulp assms(1))
qed

text \<open>The double nearest to \<open>x\<close>, found by its exponent and its integer significand.\<close>

lemma rnd_eval:
  assumes "- 1022 \<le> e" "pow2 e \<le> \<bar>x\<bar>" "\<bar>x\<bar> < pow2 (e + 1)"
    and "\<bar>of_int m * pow2 (e - 52) - x\<bar> < pow2 (e - 53)"
    and "\<bar>of_int m * pow2 (e - 52)\<bar> < pow2 1024"
  shows "rnd x = Fin (of_int m * pow2 (e - 52))"
proof -
  have b: "binade x = e"
    using assms(1-3) by (rule binade_eq)
  then have u: "ulp x = pow2 (e - 52)"
    by (simp add: ulp_def)
  have "pow2 (e - 53 + 1) = 2 * pow2 (e - 53)"
    by (rule pow2_Suc)
  then have half: "ulp x / 2 = pow2 (e - 53)"
    by (simp add: u)
  have d: "of_int m * pow2 (e - 52) = of_int m * ulp x"
    unfolding u ..
  have "\<bar>of_int m * pow2 (e - 52) - x\<bar> < ulp x / 2"
    unfolding half using assms(4) .
  with d have "round_double x = of_int m * pow2 (e - 52)"
    by (rule round_double_unique)
  then show ?thesis
    using assms(5) by (simp add: rnd_Fin_iff)
qed

lemma num_sub_Fin: "num_sub (Fin a) (Fin b) = rnd (a - b)"
  by (simp add: num_sub_def)







subsection \<open>The bounding box of a mesh\<close>










lemma math_max_same: "math_max a a = a"
  by (cases a) simp_all

lemma math_min_same: "math_min a a = a"
  by (cases a) simp_all

lemma aabbVolume_double: "aabbVolume box = Fin v \<Longrightarrow> is_double v"
  by (auto simp: Let_def split: prod.splits dest: num_mul_double)

lemma volume_of_inverted:
  assumes "num_lt h l"
  shows "math_max (Fin 0) (num_sub h l) = Fin 0"
proof -
  consider a b where "h = Fin a" "l = Fin b" "a < b" | "h = NInf" "l \<noteq> NaN" "l \<noteq> NInf"
    | "l = PInf" "h \<noteq> NaN" "h \<noteq> PInf"
    using assms by (cases h; cases l) auto
  then show ?thesis
  proof cases
    case 1
    then have "a - b \<le> 0" by simp
    then have "num_le (rnd (a - b)) (rnd 0)"
      by (rule rnd_mono)
    then show ?thesis
      using rnd_not_NaN [of "a - b"]
      by (cases "rnd (a - b)") (auto simp: 1 num_sub_def rnd_small)
  next
    case 2
    then show ?thesis by (cases l) (simp_all add: num_sub_def)
  next
    case 3
    then show ?thesis by (cases h) (simp_all add: num_sub_def)
  qed
qed

lemma num_mul_zero: "num_mul (Fin 0) a = Fin 0 \<or> num_mul (Fin 0) a = NaN"
  by (cases a) (simp_all add: rnd_small signed_inf_def)

lemma num_mul_zero_right: "num_mul a (Fin 0) = Fin 0 \<or> num_mul a (Fin 0) = NaN"
  by (cases a) (simp_all add: rnd_small signed_inf_def)

lemma num_mul_NaN: "num_mul NaN a = NaN" "num_mul a NaN = NaN"
  by (cases a; simp)+

lemma aabbVolume_inverted:
  assumes "aabbIntersection box box = None"
  shows "aabbVolume box = Fin 0 \<or> aabbVolume box = NaN"
proof -
  obtain lx ly lz hx hy hz where
    b: "aabb_min box = (lx, ly, lz)" "aabb_max box = (hx, hy, hz)"
    by (cases "aabb_min box"; cases "aabb_max box") auto
  from assms have "num_lt hx lx \<or> num_lt hy ly \<or> num_lt hz lz"
    by (simp add: b math_max_same math_min_same split: if_splits)
  then consider "math_max (Fin 0) (num_sub hx lx) = Fin 0" | "math_max (Fin 0) (num_sub hy ly) = Fin 0"
    | "math_max (Fin 0) (num_sub hz lz) = Fin 0"
    using volume_of_inverted by blast
  then show ?thesis
  proof cases
    case 1
    have "num_mul (num_mul (Fin 0) dy) dz = Fin 0 \<or> num_mul (num_mul (Fin 0) dy) dz = NaN" for dy dz
      using num_mul_zero [of dy] num_mul_zero [of dz] by (auto simp: num_mul_NaN)
    then show ?thesis
      by (simp add: b 1 Let_def)
  next
    case 2
    have "num_mul (num_mul dx (Fin 0)) dz = Fin 0 \<or> num_mul (num_mul dx (Fin 0)) dz = NaN" for dx dz
      using num_mul_zero_right [of dx] num_mul_zero [of dz] by (auto simp: num_mul_NaN)
    then show ?thesis
      by (simp add: b 2 Let_def)
  next
    case 3
    have "num_mul d (Fin 0) = Fin 0 \<or> num_mul d (Fin 0) = NaN" for d
      by (rule num_mul_zero_right)
    then show ?thesis
      by (simp add: b 3 Let_def)
  qed
qed

lemma aabbIntersection_self:
  "aabbIntersection box box = None \<or> aabbIntersection box box = Some box"
  by (cases "aabb_min box"; cases "aabb_max box") (auto simp: math_max_same math_min_same)

lemma union_of_same:
  assumes "is_double v"
  shows "(let vU = num_sub (num_add (Fin v) (Fin v)) (Fin v)
          in if num_gt vU (Fin 0) then num_div (Fin v) vU else Fin 0) = self_iou (Fin v)"
proof -
  note twice = rnd_twice [OF assms]
  consider "pow2 1024 \<le> 2 * v" | "2 * v \<le> - pow2 1024" | "\<bar>2 * v\<bar> < pow2 1024"
    by linarith
  then show ?thesis
  proof cases
    case 1
    then show ?thesis
      by (simp add: twice num_sub_def num_gt_def self_iou_def)
  next
    case 2
    then have "v < 0" using pow2_pos [of 1024] by linarith
    with 2 show ?thesis
      using pow2_pos [of 1024] by (simp add: twice num_sub_def num_gt_def self_iou_def)
  next
    case 3
    then have "rnd (2 * v) = Fin (2 * v)"
      unfolding twice by (auto simp: abs_if split: if_splits)
    moreover have "rnd (2 * v - v) = Fin v"
      using rnd_double [OF assms] by simp
    moreover have "rnd (v / v) = Fin 1" if "0 < v"
      using that by (simp add: rnd_small)
    ultimately show ?thesis
      using 3 by (auto simp: num_sub_def num_gt_def self_iou_def abs_if split: if_splits)
  qed
qed

lemma aabbIou_box: "aabbIou box box = self_iou (aabbVolume box)"
proof (cases "aabbIntersection box box")
  case None
  then show ?thesis
    using aabbVolume_inverted [OF None] by (auto simp: aabbIou_def self_iou_def)
next
  case (Some isect)
  then have isect: "aabbIntersection box box = Some box"
    using aabbIntersection_self [of box] by simp
  show ?thesis
  proof (cases "aabbVolume box")
    case (Fin v)
    then have "is_double v" by (rule aabbVolume_double)
    then show ?thesis
      using union_of_same [of v]
      by (simp add: aabbIou_def isect Fin del: aabbVolume.simps aabbIntersection.simps)
  qed (simp_all add: aabbIou_def isect self_iou_def num_sub_def num_gt_def
        del: aabbVolume.simps aabbIntersection.simps)
qed

text \<open>
  C2 (amended). For every mesh, the intersection-over-union of its bounding box with
  itself is 1 exactly when the volume \<open>v\<close> that \<^verbatim>\<open>aabbVolume\<close> computes for the box in
  double arithmetic is finite, positive and below \<open>2^1023\<close>, and is 0 in every other
  case: for a box that is flat along an axis or whose volume underflows (\<open>v = 0\<close>), for
  \<open>v \<ge> 2^1023\<close>, where the sum \<open>v + v\<close> overflows, and for a volume that is infinite or
  \<open>NaN\<close>. \<^verbatim>\<open>aabbIou\<close> returns 0 as soon as the union volume is not positive
  (\<^verbatim>\<open>vU > 0 ? vI / vU : 0\<close>).
\<close>

theorem aabbIou_self:
  "aabbIou (aabbOfTriangles m) (aabbOfTriangles m) = self_iou (aabbVolume (aabbOfTriangles m))"
  by (rule aabbIou_box)

text \<open>The theorem at a mesh of one triangle whose box has volume 2: the value is 1.\<close>

theorem aabbIou_self_witness:
  "aabbVolume (aabbOfTriangles [skew_triangle]) = Fin 2 \<and>
   aabbIou (aabbOfTriangles [skew_triangle]) (aabbOfTriangles [skew_triangle]) = Fin 1"
proof -
  have "aabbVolume (aabbOfTriangles [skew_triangle]) = Fin 2"
    by (simp add: skew_triangle_def aabbOfTriangles_def lower_def upper_def num_gt_def num_sub_def
        rnd_small)
  moreover have "self_iou (Fin 2) = Fin 1"
    by (simp add: self_iou_def pow2_def)
  ultimately show ?thesis
    using aabbIou_self [of "[skew_triangle]"] by simp
qed

text \<open>
  C2 as stated fails at the mesh of the single flat triangle: its box has volume 0, and
  \<^verbatim>\<open>aabbIou\<close> of the box with itself is 0.
\<close>

theorem aabbIou_self_flat_counterexample:
  "[flat_triangle] \<noteq> [] \<and>
   aabbIou (aabbOfTriangles [flat_triangle]) (aabbOfTriangles [flat_triangle]) = Fin 0"
proof -
  have "aabbVolume (aabbOfTriangles [flat_triangle]) = Fin 0"
    by (simp add: flat_triangle_def aabbOfTriangles_def lower_def upper_def num_gt_def num_sub_def
        rnd_small)
  then show ?thesis
    by (simp add: aabbIou_box self_iou_def)
qed

subsection \<open>Binary decoding\<close>

lemma getFloat32_in_range:
  "off + 4 \<le> length buf \<Longrightarrow> getFloat32 buf off = Inr (float_at buf off)"
  by (simp add: getFloat32_def getUint32_def float_at_def)

lemma readFloat3_in_range:
  "off + 12 \<le> length buf \<Longrightarrow> readFloat3 buf off = Inr (vec_at buf off)"
  by (simp add: readFloat3_def getFloat32_in_range vec_at_def)

lemma upt_0_Suc: "[0..<Suc k] = 0 # map Suc [0..<k]"
  by (simp add: map_Suc_upt upt_conv_Cons del: upt_Suc)

lemma read_triangles_in_range:
  "off + 50 * k \<le> length buf \<Longrightarrow>
   read_triangles buf off k = Inr (map (\<lambda>i. record_at buf (off + 50 * i)) [0..<k])"
proof (induction k arbitrary: off)
  case 0
  show ?case by simp
next
  case (Suc k)
  from Suc.prems have rest: "(off + 50) + 50 * k \<le> length buf" by simp
  from Suc.prems have here:
    "readFloat3 buf off = Inr (vec_at buf off)"
    "readFloat3 buf (off + 12) = Inr (vec_at buf (off + 12))"
    "readFloat3 buf (off + 24) = Inr (vec_at buf (off + 24))"
    "readFloat3 buf (off + 36) = Inr (vec_at buf (off + 36))"
    by (simp_all add: readFloat3_in_range)
  have tl: "map (\<lambda>i. record_at buf (off + 50 * i)) (map Suc [0..<k]) =
            map (\<lambda>i. record_at buf (off + 50 + 50 * i)) [0..<k]"
    by (simp add: add.assoc)
  have hd: "record_at buf (off + 50 * 0) =
            \<lparr>normal = vec_at buf off,
             vertices = (vec_at buf (off + 12), vec_at buf (off + 24), vec_at buf (off + 36))\<rparr>"
    by (simp add: record_at_def)
  show ?case
    unfolding upt_0_Suc list.map tl hd
    by (simp add: here Suc.IH [OF rest])
qed

lemma triangle_at_record: "triangle_at buf i = record_at buf (84 + 50 * i)"
  by (simp add: triangle_at_def record_at_def)

lemma getUint32_count: "84 \<le> length buf \<Longrightarrow> getUint32 buf 80 = Inr (stl_count buf)"
  by (simp add: getUint32_def stl_count_def)

text \<open>
  C4. For every byte buffer, \<^verbatim>\<open>parseBinaryStl\<close> throws exactly when the buffer is
  shorter than 84 bytes (the first error) or when 84 + 50 times the little-endian
  count at offset 80 is not the length of the buffer (the second error). Otherwise it
  returns the triangles of the records \<open>0, ..., count - 1\<close> in file order, so exactly
  \<open>count\<close> of them, the normal and the three vertices of record \<open>i\<close> each read as
  three consecutive little-endian 32-bit floats at the offsets \<open>84 + 50 i\<close>,
  \<open>+ 12\<close>, \<open>+ 24\<close> and \<open>+ 36\<close>. No read leaves the buffer, and a failure returns
  no triangle.
\<close>

theorem parseBinaryStl_decodes:
  "parseBinaryStl buf =
     (if length buf < 84 then Inl TooSmall
      else if 84 + 50 * stl_count buf \<noteq> length buf then Inl SizeMismatch
      else Inr (map (triangle_at buf) [0..<stl_count buf]))"
proof (cases "length buf < 84")
  case True
  then show ?thesis by (simp add: parseBinaryStl_def)
next
  case long: False
  then have cnt: "getUint32 buf 80 = Inr (stl_count buf)"
    by (simp add: getUint32_count)
  show ?thesis
  proof (cases "84 + 50 * stl_count buf = length buf")
    case True
    then have "84 + 50 * stl_count buf \<le> length buf" by simp
    then have "read_triangles buf 84 (stl_count buf) =
        Inr (map (\<lambda>i. record_at buf (84 + 50 * i)) [0..<stl_count buf])"
      by (rule read_triangles_in_range)
    moreover have "isLikelyBinaryStl (length buf) buf = Inr True"
      using long True by (simp add: isLikelyBinaryStl_def cnt mult.commute)
    ultimately show ?thesis
      using long True by (simp add: parseBinaryStl_def cnt triangle_at_record [abs_def])
  next
    case False
    then have "isLikelyBinaryStl (length buf) buf = Inr False"
      using long by (simp add: isLikelyBinaryStl_def cnt mult.commute)
    then show ?thesis
      using long False by (simp add: parseBinaryStl_def)
  qed
qed

text \<open>
  C6 (amended). The sniffing predicate reads the count stored in the buffer: a buffer
  is classified as binary exactly when it has at least 84 bytes and its length is 84 +
  50 times the little-endian count at offset 80. Hence a buffer of length
  \<open>84 + 50 k\<close> is classified as binary exactly when its count field is \<open>k\<close>, and
  a buffer shorter than 84 bytes (83, say) or of a length that is not of the form
  \<open>84 + 50 k\<close> is classified as not binary.
\<close>

theorem isBinaryStl_iff_count:
  "isBinaryStl buf = Inr (84 \<le> length buf \<and> length buf = 84 + 50 * stl_count buf) \<and>
   (\<forall>k. length buf = 84 + 50 * k \<longrightarrow> isBinaryStl buf = Inr (stl_count buf = k)) \<and>
   (length buf < 84 \<or> (\<forall>k. length buf \<noteq> 84 + 50 * k) \<longrightarrow> isBinaryStl buf = Inr False)"
proof -
  have main: "isBinaryStl buf = Inr (84 \<le> length buf \<and> length buf = 84 + 50 * stl_count buf)"
  proof (cases "length buf < 84")
    case True
    then show ?thesis by (simp add: isBinaryStl_def isLikelyBinaryStl_def)
  next
    case False
    then show ?thesis
      by (auto simp: isBinaryStl_def isLikelyBinaryStl_def getUint32_count mult.commute)
  qed
  show ?thesis
    unfolding main by auto
qed

text \<open>
  The theorem at 84 zero bytes (count 0, length \<open>84 + 50 * 0\<close>: binary) and at 83 zero
  bytes (not binary).
\<close>

theorem isBinaryStl_iff_count_witness:
  "length (zero_buffer 84) = 84 + 50 * 0 \<and> isBinaryStl (zero_buffer 84) = Inr True \<and>
   length (zero_buffer 83) < 84 \<and> isBinaryStl (zero_buffer 83) = Inr False"
  using isBinaryStl_iff_count [of "zero_buffer 84"] isBinaryStl_iff_count [of "zero_buffer 83"]
  by (simp add: zero_buffer_def stl_count_def le_uint32_def)

text \<open>
  C6 as stated fails at 134 zero bytes: the length is \<open>84 + 50 * 1\<close>, the count field
  is 0, and the buffer is classified as not binary.
\<close>

theorem isBinaryStl_length_counterexample:
  "length (zero_buffer 134) = 84 + 50 * 1 \<and> isBinaryStl (zero_buffer 134) = Inr False"
  by (simp add: zero_buffer_def isBinaryStl_def isLikelyBinaryStl_def getUint32_def le_uint32_def)

subsection \<open>Surface sampling\<close>

text \<open>
  While the sum of the two indices stays below \<open>2^31\<close> the 32-bit shift is a plain
  halving, and the binary search ends with an index between its two bounds.
\<close>

lemma shr1_small: "0 \<le> x \<Longrightarrow> x < 2 ^ 31 \<Longrightarrow> shr1 x = x div 2"
  by (simp add: shr1_def signed_take_bit_int_eq_self)

lemma search_cutoff_returns:
  "0 \<le> lo \<Longrightarrow> lo \<le> hi \<Longrightarrow> hi < 2 ^ 30 \<Longrightarrow>
   \<exists>i. search_cutoff areas r lo hi = Some i \<and> lo \<le> i \<and> i \<le> hi"
proof (induction "nat (hi - lo)" arbitrary: lo hi rule: less_induct)
  case less
  show ?case
  proof (cases "lo < hi")
    case False
    with less.prems have "search_cutoff areas r lo hi = Some lo"
      by (subst search_cutoff.simps) simp
    with less.prems show ?thesis by simp
  next
    case True
    define mid where "mid = (lo + hi) div 2"
    have mid: "shr1 (lo + hi) = mid"
      unfolding mid_def using less.prems by (intro shr1_small) simp_all
    have bounds: "lo \<le> mid" "mid < hi"
      using True by (simp_all add: mid_def)
    show ?thesis
    proof (cases "num_le r (nullish (array_get areas mid) (Fin 0))")
      case le: True
      have "\<exists>i. search_cutoff areas r lo mid = Some i \<and> lo \<le> i \<and> i \<le> mid"
        using less.prems bounds by (intro less.hyps) simp_all
      moreover have "search_cutoff areas r lo hi = search_cutoff areas r lo mid"
        using True le by (subst search_cutoff.simps) (simp add: mid)
      ultimately show ?thesis using bounds by auto
    next
      case gt: False
      have "\<exists>i. search_cutoff areas r (mid + 1) hi = Some i \<and> mid + 1 \<le> i \<and> i \<le> hi"
        using less.prems bounds by (intro less.hyps) simp_all
      moreover have "search_cutoff areas r lo hi = search_cutoff areas r (mid + 1) hi"
        using True gt by (subst search_cutoff.simps) (simp add: mid)
      ultimately show ?thesis using bounds by auto
    qed
  qed
qed

lemma pickTriangleIndex_returns:
  assumes "areas \<noteq> []" "length areas \<le> 2 ^ 30"
  shows "\<exists>i. pickTriangleIndex areas draw = Some i \<and> 0 \<le> i \<and> i < int (length areas)"
proof -
  have "0 \<le> int (length areas) - 1" "int (length areas) - 1 < 2 ^ 30"
    using assms by (cases areas; simp)+
  then obtain i where "search_cutoff areas
      (num_mul draw (nullish (array_get areas (int (length areas) - 1)) (Fin 0))) 0 (int (length areas) - 1) = Some i"
      "0 \<le> i" "i \<le> int (length areas) - 1"
    using search_cutoff_returns [of 0 "int (length areas) - 1"] by blast
  then show ?thesis by (simp add: pickTriangleIndex_def)
qed

lemma length_prefix_from: "length (prefix_from c xs) = length xs"
  by (induction xs arbitrary: c) (simp_all add: Let_def)

lemma length_prefix_sums: "length (prefix_sums xs) = length xs"
  by (cases xs) (simp_all add: length_prefix_from)

lemma length_cumulative_areas: "length (cumulative_areas triangles) = length triangles"
  by (simp add: cumulative_areas_def length_prefix_sums Let_def)

lemma sample_loop_returns:
  assumes "areas \<noteq> []" "length areas = length triangles" "length triangles \<le> 2 ^ 30"
  shows "\<exists>pts. sample_loop triangles areas rng k m = Some (Inr (pts, k + 3 * m)) \<and> length pts = m"
proof (induction m arbitrary: k)
  case 0
  show ?case by simp
next
  case (Suc m)
  obtain i where i: "pickTriangleIndex areas (rng k) = Some i" "0 \<le> i" "i < int (length areas)"
    using pickTriangleIndex_returns [OF assms(1)] assms(2,3) by metis
  then have tri: "array_get triangles i = Some (triangles ! nat i)"
    by (simp add: array_get_def assms(2))
  obtain a b c where abc: "vertices (triangles ! nat i) = (a, b, c)"
    by (cases "vertices (triangles ! nat i)") auto
  obtain pts where "sample_loop triangles areas rng (k + 3) m = Some (Inr (pts, k + 3 + 3 * m))"
      "length pts = m"
    using Suc.IH [of "k + 3"] by blast
  then show ?case
    by (simp add: i(1) tri abc Let_def)
qed

text \<open>
  C7 (amended). \<^verbatim>\<open>sampleSurfacePoints\<close> returns the empty sequence when the mesh has no
  triangle or the integer sample count \<open>N\<close> is not positive. For a mesh of at least one
  and at most \<open>2^30\<close> triangles and \<open>0 < N < 2^32\<close> it returns (it neither throws nor
  loops), the sequence it returns has exactly \<open>N\<close> points, and it has called the random
  source \<open>3 N\<close> times. The bound on \<open>N\<close> is the largest length of an array; the
  bound on the mesh is what keeps the index arithmetic of the binary search
  (\<^verbatim>\<open>(lo + hi) >> 1\<close>) within 32 bits.
\<close>

theorem sampleSurfacePoints_length:
  "(triangles = [] \<or> N \<le> 0 \<longrightarrow> sampleSurfacePoints triangles N rng k = Some (Inr ([], k))) \<and>
   (triangles \<noteq> [] \<and> length triangles \<le> 2 ^ 30 \<and> 0 < N \<and> N < 2 ^ 32 \<longrightarrow>
      (\<exists>pts. sampleSurfacePoints triangles N rng k = Some (Inr (pts, k + 3 * nat N)) \<and>
             int (length pts) = N))"
proof (intro conjI impI)
  assume "triangles = [] \<or> N \<le> 0"
  then show "sampleSurfacePoints triangles N rng k = Some (Inr ([], k))"
    by (auto simp: sampleSurfacePoints_def)
next
  assume a: "triangles \<noteq> [] \<and> length triangles \<le> 2 ^ 30 \<and> 0 < N \<and> N < 2 ^ 32"
  then have "cumulative_areas triangles \<noteq> []"
    using length_cumulative_areas [of triangles] by auto
  then obtain pts where
    "sample_loop triangles (cumulative_areas triangles) rng k (nat N) = Some (Inr (pts, k + 3 * nat N))"
    "length pts = nat N"
    using sample_loop_returns [of "cumulative_areas triangles" triangles rng k "nat N"] a
    by (auto simp: length_cumulative_areas)
  then show "\<exists>pts. sampleSurfacePoints triangles N rng k = Some (Inr (pts, k + 3 * nat N)) \<and>
             int (length pts) = N"
    using a by (auto simp: sampleSurfacePoints_def Let_def)
qed

text \<open>
  C7 as stated fails at \<open>N = 2^32\<close>, a positive integer, on a mesh of one triangle:
  \<^verbatim>\<open>new Array(sampleCount)\<close> throws a \<open>RangeError\<close>, and no sequence is returned.
\<close>

theorem sampleSurfacePoints_huge_count_counterexample:
  "[flat_triangle] \<noteq> [] \<and> (0::int) < 2 ^ 32 \<and>
   sampleSurfacePoints [flat_triangle] (2 ^ 32) quarter_rng 0 = Some (Inl RangeError)"
  by (simp add: sampleSurfacePoints_def)

text \<open>
  The theorem at a mesh of one triangle with two samples (two points, six calls of the
  random source), at the empty mesh and at the sample count 0.
\<close>

theorem sampleSurfacePoints_length_witness:
  "[skew_triangle] \<noteq> [] \<and> length [skew_triangle] \<le> 2 ^ 30 \<and> (0::int) < 2 \<and> (2::int) < 2 ^ 32 \<and>
   (\<exists>pts. sampleSurfacePoints [skew_triangle] 2 quarter_rng 0 = Some (Inr (pts, 6)) \<and> length pts = 2) \<and>
   sampleSurfacePoints [] 2 quarter_rng 0 = Some (Inr ([], 0)) \<and>
   sampleSurfacePoints [skew_triangle] 0 quarter_rng 0 = Some (Inr ([], 0))"
  using sampleSurfacePoints_length [of "[skew_triangle]" 2 quarter_rng 0]
    sampleSurfacePoints_length [of "[]" 2 quarter_rng 0]
    sampleSurfacePoints_length [of "[skew_triangle]" 0 quarter_rng 0]
  by simp

subsection \<open>Sampled points are rounded convex combinations\<close>







lemma sum3_finite:
  assumes "rnd (t1 + t2) = Fin s" "rnd (s + t3) = Fin p"
  shows "num_add (num_add (Fin t1) (Fin t2)) (Fin t3) = Fin p"
  using assms by simp











































subsection \<open>Chamfer statistics\<close>

lemma rank_inject: "rank a = rank b \<Longrightarrow> a = b"
  by (cases a; cases b) simp_all

lemma rank_less: "a \<noteq> NaN \<Longrightarrow> b \<noteq> NaN \<Longrightarrow> rank a < rank b \<longleftrightarrow> num_lt a b"
  by (cases a; cases b) simp_all

lemma rank_le: "a \<noteq> NaN \<Longrightarrow> b \<noteq> NaN \<Longrightarrow> rank a \<le> rank b \<longleftrightarrow> num_le a b"
  by (cases a; cases b) auto

lemma magnitude_not_NaN: "magnitude x \<Longrightarrow> x \<noteq> NaN"
  by (auto simp: magnitude_def)

lemma magnitude_PInf: "magnitude PInf"
  by (simp add: magnitude_def)

lemma magnitude_rnd: "0 \<le> x \<Longrightarrow> magnitude (rnd x)"
  using rnd_nonneg [of x] rnd_is_double [of x] by (auto simp: magnitude_def)

lemma double_unit:
  assumes "is_double a"
  shows "\<exists>i. a = of_int i * pow2 (- 1074)"
proof -
  from assms obtain m e where e: "- 1074 \<le> e" and a: "a = of_int m * pow2 e"
    unfolding is_double_def by blast
  from e obtain k where k: "e = - 1074 + int k"
    using zle_iff_zadd by blast
  have "pow2 e = of_int (2 ^ k) * pow2 (- 1074)"
    unfolding k pow2_add pow2_nat by simp
  then have "a = of_int (m * 2 ^ k) * pow2 (- 1074)"
    by (simp add: a)
  then show ?thesis ..
qed

lemma double_gap:
  assumes "is_double a" "is_double b" "b < a"
  shows "pow2 (- 1074) \<le> a - b"
proof -
  obtain i j where a: "a = of_int i * pow2 (- 1074)" and b: "b = of_int j * pow2 (- 1074)"
    using double_unit assms(1,2) by blast
  have "of_int j * pow2 (- 1074) < of_int i * pow2 (- 1074)"
    using assms(3) unfolding a b .
  then have "j < i"
    using pow2_pos [of "- 1074"] by (simp add: mult_less_cancel_right)
  then have "1 \<le> (of_int (i - j) :: real)"
    by simp
  then have "1 * pow2 (- 1074) \<le> of_int (i - j) * pow2 (- 1074)"
    using pow2_pos [of "- 1074"] by (intro mult_right_mono) simp_all
  then show ?thesis
    by (simp add: a b algebra_simps)
qed

lemma is_double_least: "is_double (pow2 (- 1074))"
proof -
  have "\<bar>1::int\<bar> < 2 ^ 53 \<and> - 1074 \<le> (- 1074 :: int) \<and> (- 1074 :: int) \<le> 971 \<and>
      pow2 (- 1074) = of_int 1 * pow2 (- 1074)"
    by simp
  then show ?thesis
    unfolding is_double_def by blast
qed

lemma difference_sign:
  assumes "is_double a" "is_double b"
  shows "num_gt (rnd (a - b)) (Fin 0) \<longleftrightarrow> b < a"
proof (cases "b < a")
  case True
  then have "pow2 (- 1074) \<le> a - b"
    using assms by (intro double_gap)
  then have "num_le (rnd (pow2 (- 1074))) (rnd (a - b))"
    by (rule rnd_mono)
  then have "num_le (Fin (pow2 (- 1074))) (rnd (a - b))"
    by (simp add: rnd_double is_double_least)
  then show ?thesis
    using True pow2_pos [of "- 1074"] by (cases "rnd (a - b)") (auto simp: num_gt_def)
next
  case False
  then have "a - b \<le> 0" by simp
  then have "num_le (rnd (a - b)) (rnd 0)"
    by (rule rnd_mono)
  then show ?thesis
    using False by (cases "rnd (a - b)") (auto simp: num_gt_def rnd_small)
qed

lemma comparator_rank:
  assumes "magnitude x" "magnitude y"
  shows "num_gt (num_sub x y) (Fin 0) \<longleftrightarrow> \<not> rank x \<le> rank y"
proof -
  consider a b where "x = Fin a" "y = Fin b" "is_double a" "is_double b"
    | a where "x = PInf" "y = Fin a" | a where "x = Fin a" "y = PInf" | "x = PInf" "y = PInf"
    using assms by (auto simp: magnitude_def)
  then show ?thesis
  proof cases
    case 1
    then show ?thesis
      using difference_sign [of a b] by (auto simp: num_sub_Fin)
  qed (simp_all add: num_sub_def num_gt_def)
qed

lemma sort_insert_insort:
  assumes "magnitude x" "\<forall>y \<in> set ys. magnitude y"
  shows "sort_insert num_sub x ys = insort_key rank x ys"
  using assms(2) by (induction ys) (simp_all add: comparator_rank [OF assms(1)])

lemma array_sort_sort_key:
  assumes "\<forall>y \<in> set ds. magnitude y"
  shows "array_sort num_sub ds = sort_key rank ds"
  using assms by (induction ds) (simp_all add: sort_insert_insort)

lemma nearest_foldl:
  "nearest p qs best =
     foldl (\<lambda>best d. if num_lt d best then d else best) best (map (squaredDistance p) qs)"
  by (induction qs arbitrary: best) (simp_all add: Let_def del: squaredDistance.simps)

lemma least_loop:
  assumes "\<forall>d \<in> set ds. magnitude d" "magnitude best"
  shows "magnitude (foldl (\<lambda>best d. if num_lt d best then d else best) best ds) \<and>
     foldl (\<lambda>best d. if num_lt d best then d else best) best ds \<in> insert best (set ds) \<and>
     rank (foldl (\<lambda>best d. if num_lt d best then d else best) best ds) \<le> rank best \<and>
     (\<forall>d \<in> set ds. rank (foldl (\<lambda>best d. if num_lt d best then d else best) best ds) \<le> rank d)"
  using assms
proof (induction ds arbitrary: best)
  case Nil
  then show ?case by simp
next
  case (Cons d ds)
  define b where "b = (if num_lt d best then d else best)"
  have d: "magnitude d" and rest: "\<forall>d \<in> set ds. magnitude d"
    using Cons.prems(1) by simp_all
  have b: "magnitude b" "b = d \<or> b = best" "rank b \<le> rank best" "rank b \<le> rank d"
    using d Cons.prems(2) rank_less [of d best] magnitude_not_NaN
    by (auto simp: b_def not_less [symmetric] less_imp_le)
  note IH = Cons.IH [OF rest b(1)]
  show ?case
    unfolding foldl_Cons b_def [symmetric] using IH b(2-4) by (auto intro: order_trans)
qed

lemma nearest_least:
  assumes "ds \<noteq> []" "\<forall>d \<in> set ds. magnitude d"
  shows "foldl (\<lambda>best d. if num_lt d best then d else best) PInf ds = arg_min_list rank ds"
proof -
  define r where "r = foldl (\<lambda>best d. if num_lt d best then d else best) PInf ds"
  have r: "magnitude r" "r \<in> insert PInf (set ds)" "\<forall>d \<in> set ds. rank r \<le> rank d"
    using least_loop [OF assms(2) magnitude_PInf] by (simp_all add: r_def)
  have m: "arg_min_list rank ds \<in> set ds" "\<forall>d \<in> set ds. rank (arg_min_list rank ds) \<le> rank d"
    using assms(1) by (simp_all add: arg_min_list_in f_arg_min_list_f)
  have "r \<in> set ds"
  proof (cases "r = PInf")
    case True
    obtain d where d: "d \<in> set ds" using assms(1) by (cases ds) auto
    with r(3) True have "rank PInf \<le> rank d" by simp
    moreover have "magnitude d" using assms(2) d by simp
    ultimately have "d = PInf"
      by (auto simp: magnitude_def)
    with d True show ?thesis by simp
  next
    case False
    with r(2) show ?thesis by simp
  qed
  with m(2) r(3) m(1) have "rank r = rank (arg_min_list rank ds)"
    by (intro antisym) simp_all
  then show ?thesis
    unfolding r_def by (rule rank_inject)
qed

lemma square_magnitude: "x \<noteq> NaN \<Longrightarrow> magnitude (square x)"
  by (cases x) (simp_all add: square_def magnitude_rnd magnitude_PInf)

lemma num_sub_not_NaN: "num_sub (Fin a) (Fin b) \<noteq> NaN"
  by (simp add: num_sub_Fin rnd_not_NaN)

lemma num_add_magnitude:
  assumes "magnitude a" "magnitude b"
  shows "magnitude (num_add a b)"
proof -
  consider x y where "a = Fin x" "b = Fin y" "0 \<le> x" "0 \<le> y" | "a = PInf" | "b = PInf"
    using assms by (auto simp: magnitude_def)
  then show ?thesis
  proof cases
    case 1
    then show ?thesis by (simp add: magnitude_rnd)
  next
    case 2
    then show ?thesis using assms(2) by (cases b) (auto simp: magnitude_def)
  next
    case 3
    then show ?thesis using assms(1) by (cases a) (auto simp: magnitude_def)
  qed
qed

lemma math_sqrt_magnitude:
  assumes "magnitude x"
  shows "magnitude (math_sqrt x)"
proof (cases x)
  case (Fin d)
  with assms have "0 \<le> d" by (simp add: magnitude_def)
  then have "magnitude (rnd (sqrt d))"
    by (intro magnitude_rnd) simp
  with \<open>0 \<le> d\<close> show ?thesis by (simp add: Fin)
qed (use assms in \<open>simp_all add: magnitude_def\<close>)

lemma squaredDistance_magnitude: "magnitude (squaredDistance (vec p) (vec q))"
proof -
  obtain x y z x' y' z' where p: "p = (x, y, z)" and q: "q = (x', y', z')"
    by (cases p; cases q) auto
  have "magnitude (num_mul (num_sub (Fin a) (Fin b)) (num_sub (Fin a) (Fin b)))" for a b
    using square_magnitude [OF num_sub_not_NaN [of a b]] by (simp add: square_def)
  then show ?thesis
    by (simp add: p q Let_def num_add_magnitude)
qed

lemma distance_code: "math_sqrt (squaredDistance (vec p) (vec q)) = distance p q"
  by (cases p; cases q) (simp add: Let_def square_def)

lemma distance_magnitude: "magnitude (distance p q)"
  unfolding distance_code [symmetric]
  by (intro math_sqrt_magnitude squaredDistance_magnitude)

lemma math_sqrt_rank_mono:
  assumes "magnitude a" "magnitude b" "rank a \<le> rank b"
  shows "rank (math_sqrt a) \<le> rank (math_sqrt b)"
proof -
  have ab: "num_le a b"
    using assms rank_le [of a b] magnitude_not_NaN by blast
  have "num_le (math_sqrt a) (math_sqrt b)"
  proof -
    consider x y where "a = Fin x" "b = Fin y" "0 \<le> x" "x \<le> y" | "b = PInf" | "a = PInf" "b = PInf"
      using assms(1,2) ab by (auto simp: magnitude_def)
    then show ?thesis
    proof cases
      case 1
      then have "sqrt x \<le> sqrt y" by simp
      then have "num_le (rnd (sqrt x)) (rnd (sqrt y))"
        by (rule rnd_mono)
      with 1 show ?thesis by simp
    next
      case 2
      have "magnitude (math_sqrt a)"
        using assms(1) by (rule math_sqrt_magnitude)
      then show ?thesis
        unfolding 2 by (auto simp: magnitude_def)
    next
      case 3
      then show ?thesis by simp
    qed
  qed
  then show ?thesis
    using rank_le [of "math_sqrt a" "math_sqrt b"] assms(1,2) math_sqrt_magnitude magnitude_not_NaN
    by blast
qed

lemma math_sqrt_least:
  assumes "ds \<noteq> []" "\<forall>d \<in> set ds. magnitude d"
  shows "math_sqrt (arg_min_list rank ds) = arg_min_list rank (map math_sqrt ds)"
proof -
  define m where "m = arg_min_list rank ds"
  define m' where "m' = arg_min_list rank (map math_sqrt ds)"
  have m: "m \<in> set ds" "\<forall>d \<in> set ds. rank m \<le> rank d"
    using assms(1) by (simp_all add: m_def arg_min_list_in f_arg_min_list_f)
  have m': "m' \<in> math_sqrt ` set ds" "\<forall>d \<in> set ds. rank m' \<le> rank (math_sqrt d)"
    using assms(1) arg_min_list_in [of "map math_sqrt ds" rank]
    by (simp_all add: m'_def f_arg_min_list_f)
  from m'(1) obtain d where d: "d \<in> set ds" "m' = math_sqrt d" by blast
  have "rank (math_sqrt m) \<le> rank (math_sqrt d)"
    using assms(2) m d(1) by (intro math_sqrt_rank_mono) simp_all
  moreover have "rank m' \<le> rank (math_sqrt m)"
    using m'(2) m(1) by simp
  ultimately have "rank (math_sqrt m) = rank m'"
    unfolding d(2) by (intro antisym)
  then show ?thesis
    unfolding m_def m'_def by (rule rank_inject)
qed

lemma nearest_distance:
  assumes "B \<noteq> []"
  shows "math_sqrt (nearest (vec p) (map vec B) PInf) = least_distance p B"
proof -
  define ds where "ds = map (\<lambda>q. squaredDistance (vec p) (vec q)) B"
  have ds: "ds \<noteq> []" "\<forall>d \<in> set ds. magnitude d"
    using assms by (auto simp: ds_def squaredDistance_magnitude simp del: squaredDistance.simps vec.simps)
  have "nearest (vec p) (map vec B) PInf = arg_min_list rank ds"
    unfolding nearest_foldl ds_def [symmetric] map_map comp_def
    using ds by (simp add: ds_def [symmetric] nearest_least comp_def)
  then have "math_sqrt (nearest (vec p) (map vec B) PInf) = arg_min_list rank (map math_sqrt ds)"
    using ds by (simp add: math_sqrt_least)
  also have "map math_sqrt ds = map (distance p) B"
    by (simp add: ds_def distance_code comp_def del: squaredDistance.simps vec.simps)
  finally show ?thesis
    by (simp add: least_distance_def)
qed

lemma least_distance_magnitude:
  assumes "B \<noteq> []"
  shows "magnitude (least_distance p B)"
proof -
  have "arg_min_list rank (map (distance p) B) \<in> set (map (distance p) B)"
    using assms by (intro arg_min_list_in) simp
  then show ?thesis
    by (auto simp: least_distance_def distance_magnitude)
qed

lemma sorted_distances:
  assumes "B \<noteq> []"
  shows "array_sort num_sub (map (\<lambda>p. math_sqrt (nearest p (map vec B) PInf)) (map vec A)) =
     min_distances A B"
proof -
  have eq: "map (\<lambda>p. math_sqrt (nearest p (map vec B) PInf)) (map vec A) = map (\<lambda>p. least_distance p B) A"
    by (simp add: nearest_distance [OF assms] comp_def del: vec.simps)
  have "\<forall>d \<in> set (map (\<lambda>p. least_distance p B) A). magnitude d"
    using least_distance_magnitude [OF assms] by simp
  then show ?thesis
    unfolding eq min_distances_def by (rule array_sort_sort_key)
qed

lemma rnd_95: "rnd (19 / 20) = Fin (4278419646001971 / 4503599627370496)"
  using rnd_eval [of "- 1" "95 / 100" 8556839292003942]
  by (simp add: pow2_def)

lemma index_95:
  assumes "n < 2 ^ 32"
  shows "math_floor (num_mul (Fin (real n)) (rnd (95 / 100))) = Fin (of_int \<lfloor>95 / 100 * real n\<rfloor>)"
proof -
  define x where "x = real n * (4278419646001971 / 4503599627370496)"
  define K where "K = \<lfloor>95 / 100 * real n\<rfloor>"
  define \<delta> where "\<delta> = 2 * real n / 5 / 2 ^ 53"
  have x: "x = 19 * real n / 20 - \<delta>"
    by (simp add: x_def \<delta>_def field_simps)
  have n: "real n < 2 ^ 32"
    using assms by (metis of_nat_less_iff of_nat_numeral of_nat_power)
  have \<delta>: "0 \<le> \<delta>" "\<delta> < 1 / 2097152"
    using n by (simp_all add: \<delta>_def field_simps)
  have K: "of_int K \<le> 19 * real n / 20" "19 * real n / 20 < of_int K + 1"
    unfolding K_def by linarith+
  have K0: "0 \<le> K"
    unfolding K_def by simp
  have goal: "math_floor (num_mul (Fin (real n)) (rnd (95 / 100))) = math_floor (rnd x)"
    by (simp add: rnd_95 x_def)
  have "math_floor (rnd x) = Fin (of_int K)"
  proof (cases "of_int K = 19 * real n / 20")
    case False
    have "of_int (20 * K) < (of_nat (19 * n) :: real)"
      using K(1) False by simp
    then have "20 * K < int (19 * n)"
      by linarith
    then have "20 * K + 1 \<le> int (19 * n)"
      by simp
    then have "of_int (20 * K + 1) \<le> (of_nat (19 * n) :: real)"
      by linarith
    then have lo: "of_int K + 1 / 20 \<le> 19 * real n / 20"
      by simp
    have "int (19 * n) < 20 * K + 20"
      using K(2) by linarith
    then have "int (19 * n) \<le> 20 * K + 19"
      by simp
    then have "(of_nat (19 * n) :: real) \<le> of_int (20 * K + 19)"
      by linarith
    then have hi: "19 * real n / 20 \<le> of_int K + 19 / 20"
      by simp
    have ax: "\<bar>x\<bar> \<le> 2 ^ 32"
      using x \<delta> n K0 lo by (simp add: abs_if)
    have "\<bar>round_double x - x\<bar> \<le> \<bar>x\<bar> * pow2 (- 53) + pow2 (- 1075)"
      by (rule round_double_close)
    also have "\<dots> \<le> 2 ^ 32 * pow2 (- 53) + pow2 (- 1075)"
      using ax pow2_nonneg [of "- 53"] by (simp add: mult_right_mono)
    also have "\<dots> < 1 / 40"
      by (simp add: pow2_def)
    finally have err: "\<bar>round_double x - x\<bar> < 1 / 40" .
    have y: "of_int K \<le> round_double x" "round_double x < of_int K + 1"
      using err lo hi x \<delta> by linarith+
    then have "\<lfloor>round_double x\<rfloor> = K"
      by (intro floor_unique) simp_all
    moreover have "\<bar>round_double x\<bar> < pow2 1024"
    proof -
      have "\<bar>round_double x\<bar> \<le> \<bar>round_double x - x\<bar> + \<bar>x\<bar>"
        by linarith
      also have "\<dots> < 1 / 40 + 2 ^ 32"
        using err ax by (rule add_less_le_mono)
      also have "\<dots> < (2 ^ 33 :: real)"
        by simp
      finally have "\<bar>round_double x\<bar> < 2 ^ 33" .
      also have "(2 ^ 33 :: real) \<le> pow2 1024"
        unfolding pow2_nat [symmetric] by (intro pow2_mono) simp
      finally show ?thesis .
    qed
    ultimately show ?thesis
      by (simp add: rnd_def Let_def abs_if split: if_splits)
  next
    case True
    show ?thesis
    proof (cases "n = 0")
      case True
      then show ?thesis
        by (simp add: x_def K_def rnd_small)
    next
      case False
      then have "1 \<le> real n" by simp
      with True have K1: "19 / 20 \<le> (of_int K :: real)" by simp
      have d: "\<delta> = 8 * of_int K / 19 / 2 ^ 53"
        unfolding \<delta>_def True by simp
      have xK: "x = of_int K - \<delta>"
        by (simp add: x True)
      have xpos: "0 < x" "x \<le> of_int K"
        using xK \<delta> K1 by simp_all
      have Kb: "K < 2 ^ 53"
      proof -
        have "(of_int K :: real) < 2 ^ 32"
          using True n by simp
        then have "K < 2 ^ 32"
          using of_int_less_iff [of K "2 ^ 32", where ?'a = real] by simp
        then show ?thesis by simp
      qed
      have "is_double (of_int K)"
        using K0 Kb by (intro is_double_int) simp
      moreover have "binade x = - 1022 \<or> pow2 (binade x) \<le> \<bar>of_int K :: real\<bar>"
        using normal_or_small [of x] xpos by auto
      ultimately obtain i where i: "of_int K = of_int i * ulp x"
        using double_multiple by blast
      have "x < ulp x * pow2 53"
        using binade_upper [of x] xpos by (simp add: ulp_times)
      then have "x / 2 ^ 54 < ulp x / 2"
        by (simp add: pow2_def)
      moreover have "\<delta> < x / 2 ^ 54"
        unfolding xK d using K1 by (simp add: field_simps)
      ultimately have "\<bar>of_int K - x\<bar> < ulp x / 2"
        using xK \<delta> by simp
      with i have "round_double x = of_int K"
        by (rule round_double_unique)
      moreover have "\<bar>of_int K :: real\<bar> < pow2 1024"
        using is_double_bound [OF \<open>is_double (of_int K)\<close>] .
      ultimately have "rnd x = Fin (of_int K)"
        by (simp add: rnd_Fin_iff)
      then show ?thesis by simp
    qed
  qed
  then show ?thesis
    unfolding goal K_def .
qed

lemma math_min_Fin: "math_min (Fin a) (Fin b) = Fin (min a b)"
  by (simp add: min_def)

lemma array_at_index:
  assumes "0 \<le> k" "k < int (length xs)"
  shows "array_at xs (Fin (of_int k)) = Some (xs ! nat k)"
  using assms by (simp add: array_get_def)

lemma oneWay_statistics:
  assumes "A \<noteq> []" "B \<noteq> []" "length A < 2 ^ 32"
  shows "oneWay (map vec A) (map vec B) =
     \<lparr>mean = average (min_distances A B),
      p95 = percentile95 (min_distances A B),
      max_stat = last (min_distances A B)\<rparr>"
proof -
  define ds where "ds = min_distances A B"
  define n where "n = length ds"
  have len: "n = length A"
    by (simp add: n_def ds_def min_distances_def)
  have n: "0 < n" "n < 2 ^ 32"
    using assms(1,3) by (simp_all add: len)
  have ne: "ds \<noteq> []"
    using n(1) by (auto simp: n_def)
  have mins: "array_sort num_sub (map (\<lambda>p. math_sqrt (nearest p (map vec B) PInf)) (map vec A)) = ds"
    unfolding ds_def by (rule sorted_distances [OF assms(2)])
  have nb: "int n < 2 ^ 32"
    using n(2) by (metis of_nat_less_iff of_nat_numeral of_nat_power)
  have "rnd (of_int (int n - 1)) = Fin (of_int (int n - 1))"
    using nb by (intro rnd_int) simp
  moreover have "(of_int (int n - 1) :: real) = real n - 1"
    by simp
  ultimately have pred: "num_sub (Fin (real n)) (Fin 1) = Fin (of_int (int n - 1))"
    unfolding num_sub_Fin by (simp only:)
  have floor95: "math_floor (num_mul (Fin (real n)) (rnd (95 / 100))) = Fin (of_int \<lfloor>95 / 100 * real n\<rfloor>)"
    using n(2) by (rule index_95)
  define k where "k = min (int n - 1) \<lfloor>95 / 100 * real n\<rfloor>"
  have k: "0 \<le> k" "k < int n"
    using n(1) by (simp_all add: k_def)
  have "min (of_int (int n - 1)) (of_int \<lfloor>95 / 100 * real n\<rfloor>) = (of_int k :: real)"
    unfolding k_def by (simp only: of_int_min)
  then have idx: "math_min (Fin (of_int (int n - 1)))
      (math_floor (num_mul (Fin (real n)) (rnd (95 / 100)))) = Fin (of_int k)"
    unfolding floor95 math_min_Fin by (simp only:)
  have "nat k = min (n - 1) (nat \<lfloor>95 / 100 * real n\<rfloor>)"
    unfolding k_def using n(1) by linarith
  then have "ds ! nat k = percentile95 ds"
    unfolding percentile95_def n_def by (simp only:)
  then have p95: "array_at ds (Fin (of_int k)) = Some (percentile95 ds)"
    using array_at_index [of k ds] k by (simp only: n_def simp_thms)
  have "nat (int n - 1) = n - 1"
    by linarith
  then have "ds ! nat (int n - 1) = last ds"
    using ne by (simp add: last_conv_nth n_def)
  then have mx: "array_at ds (Fin (of_int (int n - 1))) = Some (last ds)"
    using array_at_index [of "int n - 1" ds] n(1) by (simp add: n_def)
  have mean: "num_div (foldl num_add (Fin 0) ds) (Fin (real (if n = 0 then 1 else n))) = average ds"
    using n(1) by (simp add: average_def n_def)
  show ?thesis
    unfolding oneWay_def mins Let_def n_def [symmetric] pred idx p95 mx mean ds_def [symmetric]
    by (simp only: nullish.simps)
qed

text \<open>
  C1 (amended). For every pair of non-empty point clouds with finite coordinates and
  fewer than \<open>2^32\<close> points each (no array is longer), \<^verbatim>\<open>chamferDistance\<close> reports, for
  each direction, of the per-source-point least distances to the target sorted
  ascending: their average as the mean, the value at index \<open>floor (0.95 * count)\<close>
  clamped to the last index as \<open>p95\<close>, and the last value as the maximum. The distance
  of two points is their Euclidean distance as double arithmetic computes it, every
  operation rounded, which is infinite when a square or the sum of the squares overflows;
  the average is the sum from the first to the last, every addition rounded, divided by
  the count.
\<close>

theorem chamferDistance_statistics:
  assumes "A \<noteq> []" "B \<noteq> []" "length A < 2 ^ 32" "length B < 2 ^ 32"
  shows "chamferDistance (map vec A) (map vec B) =
     \<lparr>meanAB = average (min_distances A B),
      meanBA = average (min_distances B A),
      p95AB = percentile95 (min_distances A B),
      p95BA = percentile95 (min_distances B A),
      maxAB = last (min_distances A B),
      maxBA = last (min_distances B A)\<rparr>"
  unfolding chamferDistance_def
  by (simp add: oneWay_statistics [OF assms(1,2,3)] oneWay_statistics [OF assms(2,1,4)] Let_def)

text \<open>
  The theorem at the clouds \<open>{(0,0,0)}\<close> and \<open>{(3,0,0), (0,4,0)}\<close>: the one distance
  from the first to the second is 3, the two distances back are 3 and 4.
\<close>

lemma sqrt_9: "sqrt 9 = 3"
  by (rule real_sqrt_unique) simp_all

lemma sqrt_16: "sqrt 16 = 4"
  by (rule real_sqrt_unique) simp_all

lemma rnd_half_7: "rnd (7 / 2) = Fin (7 / 2)"
  using rnd_dyadic [of 7 1] by simp

lemma distances_origin_axes:
  "distance (0, 0, 0) (3, 0, 0) = Fin 3" "distance (0, 0, 0) (0, 4, 0) = Fin 4"
  "distance (3, 0, 0) (0, 0, 0) = Fin 3" "distance (0, 4, 0) (0, 0, 0) = Fin 4"
  by (simp_all add: square_def num_sub_Fin rnd_small sqrt_9 sqrt_16)

lemma min_distances_origin_axes: "min_distances cloud_origin cloud_axes = [Fin 3]"
  by (simp add: min_distances_def least_distance_def cloud_origin_def cloud_axes_def
      distances_origin_axes del: distance.simps)

lemma min_distances_axes_origin: "min_distances cloud_axes cloud_origin = [Fin 3, Fin 4]"
  by (simp add: min_distances_def least_distance_def cloud_origin_def cloud_axes_def
      distances_origin_axes del: distance.simps)

theorem chamferDistance_statistics_witness:
  "cloud_origin \<noteq> [] \<and> cloud_axes \<noteq> [] \<and>
   length cloud_origin < 2 ^ 32 \<and> length cloud_axes < 2 ^ 32 \<and>
   chamferDistance (map vec cloud_origin) (map vec cloud_axes) =
     \<lparr>meanAB = Fin 3, meanBA = Fin (7 / 2), p95AB = Fin 3, p95BA = Fin 4,
      maxAB = Fin 3, maxBA = Fin 4\<rparr>"
proof -
  have ne: "cloud_origin \<noteq> []" "cloud_axes \<noteq> []"
    and len: "length cloud_origin < 2 ^ 32" "length cloud_axes < 2 ^ 32"
    by (simp_all add: cloud_origin_def cloud_axes_def)
  show ?thesis
    using chamferDistance_statistics [OF ne len] len
    by (simp add: ne min_distances_origin_axes min_distances_axes_origin average_def
       percentile95_def rnd_small rnd_half_7)
qed

text \<open>
  C1 as stated fails at the clouds \<open>{(0,0,0)}\<close> and \<open>{(2^512,0,0)}\<close>: the Euclidean distance
  of the two points is \<open>2^512\<close>, but its square overflows, so that every statistic
  reported is infinite.
\<close>

lemma distance_far:
  "distance (0, 0, 0) (pow2 512, 0, 0) = PInf" "distance (pow2 512, 0, 0) (0, 0, 0) = PInf"
proof -
  have d: "is_double (pow2 512)"
  proof -
    have "\<bar>1::int\<bar> < 2 ^ 53 \<and> - 1074 \<le> (512::int) \<and> (512::int) \<le> 971 \<and> pow2 512 = of_int 1 * pow2 512"
      by simp
    then show ?thesis
      unfolding is_double_def by blast
  qed
  have r: "rnd (pow2 512) = Fin (pow2 512)" "rnd (- pow2 512) = Fin (- pow2 512)"
    using d by (simp_all add: rnd_double is_double_minus)
  have "pow2 512 * pow2 512 = pow2 1024"
    using pow2_add [of 512 512] by simp
  then have sq: "rnd (pow2 512 * pow2 512) = PInf"
    by (simp add: rnd_overflow)
  show "distance (0, 0, 0) (pow2 512, 0, 0) = PInf" "distance (pow2 512, 0, 0) (0, 0, 0) = PInf"
    by (simp_all add: square_def num_sub_Fin rnd_small r sq)
qed

theorem chamferDistance_overflow_counterexample:
  "cloud_origin \<noteq> [] \<and> cloud_far \<noteq> [] \<and>
   euclid (0, 0, 0) (pow2 512, 0, 0) = pow2 512 \<and>
   chamferDistance (map vec cloud_origin) (map vec cloud_far) =
     \<lparr>meanAB = PInf, meanBA = PInf, p95AB = PInf, p95BA = PInf, maxAB = PInf, maxBA = PInf\<rparr>"
proof -
  have ne: "cloud_origin \<noteq> []" "cloud_far \<noteq> []"
    and len: "length cloud_origin < 2 ^ 32" "length cloud_far < 2 ^ 32"
    by (simp_all add: cloud_origin_def cloud_far_def)
  have ds: "min_distances cloud_origin cloud_far = [PInf]" "min_distances cloud_far cloud_origin = [PInf]"
    by (simp_all add: min_distances_def least_distance_def cloud_origin_def cloud_far_def
        distance_far del: distance.simps)
  have "euclid (0, 0, 0) (pow2 512, 0, 0) = pow2 512"
    using pow2_nonneg [of 512] by simp
  moreover have "chamferDistance (map vec cloud_origin) (map vec cloud_far) =
     \<lparr>meanAB = PInf, meanBA = PInf, p95AB = PInf, p95BA = PInf, maxAB = PInf, maxBA = PInf\<rparr>"
    unfolding chamferDistance_def
    by (simp add: oneWay_statistics [OF ne len(1)] oneWay_statistics [OF ne(2,1) len(2)] Let_def ds
        average_def percentile95_def)
  ultimately show ?thesis
    using ne by simp
qed

subsection \<open>Digits and literals\<close>

lemma digit_char_props:
  assumes "d < 10"
  shows "is_digit (digit_char d)" "digit_value (digit_char d) = d"
proof -
  from assms have "d \<in> {0, 1, 2, 3, 4, 5, 6, 7, 8, 9}" by auto
  then show "is_digit (digit_char d)" "digit_value (digit_char d) = d"
    by (auto simp: digit_char_def is_digit_def digit_value_def)
qed

lemma dec_digits_digits: "list_all is_digit (dec_digits n)"
proof (induction n rule: dec_digits.induct)
  case (1 n)
  show ?case
  proof (cases "n < 10")
    case True
    then show ?thesis
      by (subst dec_digits.simps) (simp add: digit_char_props)
  next
    case False
    with "1.IH" have "list_all is_digit (dec_digits (n div 10))" by simp
    then show ?thesis
      using False by (subst dec_digits.simps) (simp add: digit_char_props)
  qed
qed

lemma dec_digits_not_Nil: "dec_digits n \<noteq> []"
  by (subst dec_digits.simps) simp

lemma digits_value_snoc: "digits_value (ds @ [c]) = 10 * digits_value ds + digit_value c"
  by (simp add: digits_value_def)

lemma digits_value_Nil: "digits_value [] = 0"
  by (simp add: digits_value_def)

lemma digits_value_dec_digits: "digits_value (dec_digits n) = n"
proof (induction n rule: dec_digits.induct)
  case (1 n)
  show ?case
  proof (cases "n < 10")
    case True
    then have "dec_digits n = [digit_char n]"
      by (subst dec_digits.simps) simp
    then show ?thesis
      using True by (simp add: digits_value_def digit_char_props)
  next
    case False
    with "1.IH" have IH: "digits_value (dec_digits (n div 10)) = n div 10" by simp
    have "dec_digits n = dec_digits (n div 10) @ [digit_char (n mod 10)]"
      using False by (subst dec_digits.simps) simp
    then show ?thesis
      by (simp add: digits_value_snoc IH digit_char_props(2) [of "n mod 10"])
  qed
qed

lemma digits_value_append:
  "digits_value (xs @ ys) = digits_value xs * 10 ^ length ys + digits_value ys"
proof (induction ys rule: rev_induct)
  case Nil
  show ?case by (simp add: digits_value_Nil)
next
  case (snoc y ys)
  have "digits_value (xs @ ys @ [y]) = 10 * digits_value (xs @ ys) + digit_value y"
    using digits_value_snoc [of "xs @ ys" y] by simp
  then show ?case
    by (simp add: snoc.IH digits_value_snoc algebra_simps)
qed

lemma digits_value_zeros: "digits_value (replicate k CHR ''0'') = 0"
proof (induction k)
  case 0
  show ?case by (simp add: digits_value_Nil)
next
  case (Suc k)
  have "replicate (Suc k) CHR ''0'' = replicate k CHR ''0'' @ [CHR ''0'']"
    by (simp add: replicate_append_same)
  then show ?case
    by (simp only: digits_value_snoc Suc.IH) (simp add: digit_value_def)
qed

lemma is_digit_zero: "is_digit CHR ''0''"
  by (simp add: is_digit_def)

text \<open>The digits of \<open>toFixed\<close>: an integer part, a point and \<open>f\<close> fraction digits.\<close>

lemma fixed_digits_form:
  assumes "0 < f"
  shows "\<exists>a b. fixed_digits x f = (if x < 0 then ''-'' else '''') @ a @ ''.'' @ b \<and>
     a \<noteq> [] \<and> list_all is_digit a \<and> list_all is_digit b \<and> length b = f \<and>
     digits_value a * 10 ^ f + digits_value b = nat \<lfloor>\<bar>x\<bar> * 10 ^ f + 1 / 2\<rfloor>"
proof -
  define n where "n = nat \<lfloor>\<bar>x\<bar> * 10 ^ f + 1 / 2\<rfloor>"
  define m0 where "m0 = dec_digits n"
  define m where "m = (if length m0 \<le> f then replicate (f + 1 - length m0) CHR ''0'' @ m0 else m0)"
  define a where "a = take (length m - f) m"
  define b where "b = drop (length m - f) m"
  have len: "f < length m"
    by (auto simp: m_def)
  have "list_all is_digit m0"
    by (simp add: m0_def dec_digits_digits)
  then have digits: "list_all is_digit m"
    by (auto simp: m_def list_all_iff is_digit_zero)
  have val: "digits_value m = n"
    by (simp add: m_def m0_def digits_value_append digits_value_zeros digits_value_dec_digits)
  have ab: "a @ b = m"
    by (simp add: a_def b_def)
  have lb: "length b = f"
    using len by (simp add: b_def)
  have "a \<noteq> []"
    using len by (auto simp: a_def)
  moreover have "list_all is_digit a" "list_all is_digit b"
    using digits unfolding ab [symmetric] by simp_all
  moreover have "digits_value a * 10 ^ f + digits_value b = n"
    using val unfolding ab [symmetric] by (simp add: digits_value_append lb)
  moreover have "fixed_digits x f = (if x < 0 then ''-'' else '''') @ a @ ''.'' @ b"
    using assms
    unfolding fixed_digits_def Let_def n_def [symmetric] m0_def [symmetric] m_def [symmetric]
      a_def b_def by simp
  ultimately show ?thesis
    using lb unfolding n_def by blast
qed

lemma point_not_digit: "\<not> is_digit CHR ''.''" "\<not> is_zero CHR ''.''" "\<not> is_digit CHR ''-''"
  by (simp_all add: is_digit_def is_zero_def)

lemma is_zero_digit: "is_zero c \<Longrightarrow> is_digit c"
  by (simp add: is_zero_def is_digit_def)

lemma drop_fraction_zeros_no_point:
  assumes "CHR ''.'' \<notin> set t"
  shows "drop_fraction_zeros t = t"
proof -
  define rest2 where "rest2 = dropWhile is_digit (dropWhile is_zero (rev t))"
  have "set rest2 \<subseteq> set t"
    unfolding rest2_def by (auto dest!: set_dropWhileD)
  then have "rest2 \<noteq> [] \<Longrightarrow> hd rest2 \<noteq> CHR ''.''"
    using assms hd_in_set by fastforce
  then show ?thesis
    unfolding drop_fraction_zeros_def Let_def rest2_def [symmetric] by auto
qed

lemma trimTrailingZeros_form:
  assumes s: "s = [] \<or> s = ''-''" and a: "list_all is_digit a" and b: "list_all is_digit b" "b \<noteq> []"
  shows "trimTrailingZeros (s @ a @ ''.'' @ b) =
     s @ a @ (if strip_zeros b = [] then [] else ''.'' @ strip_zeros b)"
proof -
  define str where "str = s @ a @ ''.'' @ b"
  define z where "z = takeWhile is_zero (rev b)"
  define d where "d = dropWhile is_zero (rev b)"
  define tail where "tail = CHR ''.'' # rev a @ rev s"
  have r: "rev str = rev b @ tail"
    by (simp add: str_def tail_def)
  have zd: "rev b = z @ d"
    by (simp add: z_def d_def)
  have strip: "strip_zeros b = rev d"
    by (simp add: strip_zeros_def d_def)
  have point: "CHR ''.'' \<in> set str"
    by (simp add: str_def)
  have sa: "CHR ''.'' \<notin> set (s @ a)"
    using s a point_not_digit by (auto simp: list_all_iff)
  show ?thesis
  proof (cases "d = []")
    case True
    then have all: "\<forall>x \<in> set (rev b). is_zero x"
      unfolding d_def by (simp add: dropWhile_eq_Nil_conv)
    have "takeWhile is_zero tail = []" "dropWhile is_zero tail = tail"
      by (simp_all add: tail_def point_not_digit)
    note tail = this
    have "takeWhile is_zero (rev b @ tail) = rev b @ takeWhile is_zero tail"
      using all by (intro takeWhile_append2) blast
    then have tw: "takeWhile is_zero (rev str) = rev b"
      unfolding r tail by simp
    have "dropWhile is_zero (rev b @ tail) = dropWhile is_zero tail"
      using all by (intro dropWhile_append2) blast
    then have dw: "dropWhile is_zero (rev str) = tail"
      unfolding r tail by simp
    have "drop_point_zeros str = s @ a"
      unfolding drop_point_zeros_def Let_def tw dw using b(2) by (simp add: tail_def)
    then have "trimTrailingZeros str = s @ a"
      using point sa by (simp add: trimTrailingZeros_def drop_fraction_zeros_no_point)
    then show ?thesis
      using True by (simp add: str_def strip)
  next
    case False
    then have "\<not> is_zero (hd d)"
      unfolding d_def by (rule hd_dropWhile)
    moreover from False have "hd d \<in> set d"
      by (rule hd_in_set)
    then have "hd d \<in> set (rev b)"
      unfolding d_def by (rule set_dropWhileD)
    ultimately have hd: "\<not> is_zero (hd d)" "hd d \<in> set (rev b)"
      by blast+
    then have hd_digit: "is_digit (hd d)"
      using b(1) by (simp add: list_all_iff)
    have d_digits: "\<forall>x \<in> set d. is_digit x"
      using b(1) unfolding d_def by (auto simp: list_all_iff dest!: set_dropWhileD)
    have tw: "takeWhile is_zero (rev str) = z"
      unfolding r z_def using hd by (intro takeWhile_append1) auto
    have dw: "dropWhile is_zero (rev str) = d @ tail"
      unfolding r d_def using hd by (intro dropWhile_append1) auto
    have hd_rest: "hd (d @ tail) = hd d"
      using False by simp
    have "hd d \<noteq> CHR ''.''"
      using hd_digit point_not_digit by auto
    then have p1: "drop_point_zeros str = str"
      unfolding drop_point_zeros_def Let_def tw dw hd_rest by simp
    have "dropWhile is_digit tail = tail"
      by (simp add: tail_def point_not_digit)
    moreover have "dropWhile is_digit (d @ tail) = dropWhile is_digit tail"
      using d_digits by (intro dropWhile_append2) blast
    ultimately have dw2: "dropWhile is_digit (d @ tail) = tail"
      by simp
    have "drop_fraction_zeros str = (if z \<noteq> [] then rev (d @ tail) else str)"
      unfolding drop_fraction_zeros_def Let_def tw dw dw2 by (simp add: tail_def)
    moreover have "rev (d @ tail) = s @ a @ ''.'' @ rev d"
      by (simp add: tail_def)
    moreover have "rev d = b" if "z = []"
      using zd that by (simp add: rev_swap)
    ultimately have "drop_fraction_zeros str = s @ a @ ''.'' @ rev d"
      by (auto simp: str_def)
    moreover have "trimTrailingZeros str = drop_fraction_zeros (drop_point_zeros str)"
      using point by (simp add: trimTrailingZeros_def)
    ultimately have "trimTrailingZeros str = s @ a @ ''.'' @ rev d"
      by (simp only: p1)
    then show ?thesis
      using False unfolding str_def strip by simp
  qed
qed

lemma plain_char_not_space: "plain_char c \<Longrightarrow> \<not> is_space c"
  by (auto simp: plain_char_def is_digit_def is_space_def)

lemma trim_no_space:
  assumes "\<forall>c \<in> set t. \<not> is_space c"
  shows "trim t = t"
proof -
  have "dropWhile is_space u = u" if "\<forall>c \<in> set u. \<not> is_space c" for u
    using that by (cases u) simp_all
  from this [of t] this [of "rev t"] assms show ?thesis
    by (simp add: trim_def)
qed

lemma non_decimal_literal_plain:
  assumes "list_all plain_char t"
  shows "non_decimal_literal t = None"
proof (cases t)
  case Nil
  then show ?thesis by (simp add: non_decimal_literal_def)
next
  case (Cons z u)
  show ?thesis
  proof (cases u)
    case Nil
    with Cons show ?thesis by (simp add: non_decimal_literal_def)
  next
    case (Cons p ds)
    with assms \<open>t = z # u\<close> have "plain_char p" by simp
    then have "p \<noteq> CHR ''x''" "p \<noteq> CHR ''X''" "p \<noteq> CHR ''o''" "p \<noteq> CHR ''O''"
      "p \<noteq> CHR ''b''" "p \<noteq> CHR ''B''"
      by (auto simp: plain_char_def is_digit_def)
    then show ?thesis
      using Cons \<open>t = z # u\<close> by (simp add: non_decimal_literal_def)
  qed
qed

lemma takeWhile_all: "\<forall>x \<in> set xs. P x \<Longrightarrow> takeWhile P xs = xs"
  by (simp add: takeWhile_eq_all_conv)

lemma dropWhile_all: "\<forall>x \<in> set xs. P x \<Longrightarrow> dropWhile P xs = []"
  by simp

text \<open>
  The literals the writer produces: an optional sign, digits, an optional fraction and an
  optional exponent with the sign \<^verbatim>\<open>+\<close>.
\<close>

lemma exponent_part_written:
  assumes "ex \<noteq> []" "list_all is_digit ex"
  shows "exponent_part [] = Some 0" "exponent_part (''e+'' @ ex) = Some (int (digits_value ex))"
  using assms by (simp_all add: exponent_part_def)

lemma unsigned_decimal_digits:
  assumes a: "a \<noteq> []" "list_all is_digit a" and c: "list_all is_digit c"
    and x: "list_all is_digit ex"
  shows "unsigned_decimal (a @ (if c = [] then [] else ''.'' @ c) @ (if ex = [] then [] else ''e+'' @ ex)) =
     Some (rnd ((real (digits_value a) + real (digits_value c) / 10 ^ length c) * 10 ^ digits_value ex))"
proof -
  define ext where "ext = (if ex = [] then [] else ''e+'' @ ex)"
  define frac where "frac = (if c = [] then [] else ''.'' @ c)"
  have da: "\<forall>x \<in> set a. is_digit x" and dc: "\<forall>x \<in> set c. is_digit x"
    using a(2) c by (simp_all add: list_all_iff)
  have "is_digit (hd a)"
    using a da by simp
  moreover have "\<not> is_digit CHR ''I''"
    by (simp add: is_digit_def)
  ultimately have "hd (a @ frac @ ext) \<noteq> CHR ''I''"
    using a(1) by auto
  then have inf: "a @ frac @ ext \<noteq> ''Infinity''"
    by auto
  have e_not_digit: "\<not> is_digit CHR ''e''"
    by (simp add: is_digit_def)
  have tw_ext: "takeWhile is_digit ext = []" and dw_ext: "dropWhile is_digit ext = ext"
    by (simp_all add: ext_def e_not_digit)
  have tw_rest: "takeWhile is_digit (frac @ ext) = []" and dw_rest: "dropWhile is_digit (frac @ ext) = frac @ ext"
    by (simp_all add: frac_def point_not_digit tw_ext dw_ext)
  have "takeWhile is_digit (a @ frac @ ext) = a @ takeWhile is_digit (frac @ ext)"
    using da by (intro takeWhile_append2) blast
  then have ip: "takeWhile is_digit (a @ frac @ ext) = a"
    by (simp add: tw_rest)
  have "dropWhile is_digit (a @ frac @ ext) = dropWhile is_digit (frac @ ext)"
    using da by (intro dropWhile_append2) blast
  then have r1: "dropWhile is_digit (a @ frac @ ext) = frac @ ext"
    by (simp add: dw_rest)
  have "takeWhile is_digit (c @ ext) = c @ takeWhile is_digit ext"
    using dc by (intro takeWhile_append2) blast
  then have tc: "takeWhile is_digit (c @ ext) = c"
    by (simp add: tw_ext)
  have "dropWhile is_digit (c @ ext) = dropWhile is_digit ext"
    using dc by (intro dropWhile_append2) blast
  then have dc': "dropWhile is_digit (c @ ext) = ext"
    by (simp add: dw_ext)
  have ep: "exponent_part ext = Some (int (digits_value ex))"
    using x by (simp add: ext_def exponent_part_def digits_value_Nil)
  have ext_hd: "(ext \<noteq> [] \<and> hd ext = CHR ''.'') = False"
    by (simp add: ext_def)
  have "unsigned_decimal (a @ frac @ ext) =
     Some (rnd ((real (digits_value a) + real (digits_value c) / 10 ^ length c) * 10 ^ digits_value ex))"
  proof (cases "c = []")
    case True
    then have "frac = []" by (simp add: frac_def)
    then show ?thesis
      unfolding unsigned_decimal_def Let_def ip r1 using inf a(1) True
      by (simp add: ep digits_value_Nil ext_hd)
  next
    case False
    then have frac: "frac = CHR ''.'' # c" by (simp add: frac_def)
    show ?thesis
      unfolding unsigned_decimal_def Let_def ip r1 using inf a(1)
      by (simp add: frac tc dc' ep)
  qed
  then show ?thesis
    by (simp only: frac_def ext_def)
qed

lemma Number_written:
  assumes s: "s = [] \<or> s = ''-''" and a: "a \<noteq> []" "list_all is_digit a" and c: "list_all is_digit c"
    and x: "list_all is_digit ex"
  shows "Number (s @ a @ (if c = [] then [] else ''.'' @ c) @ (if ex = [] then [] else ''e+'' @ ex)) =
     rnd ((if s = [] then 1 else - 1) *
          ((real (digits_value a) + real (digits_value c) / 10 ^ length c) * 10 ^ digits_value ex))"
proof -
  define body where "body = a @ (if c = [] then [] else ''.'' @ c) @ (if ex = [] then [] else ''e+'' @ ex)"
  define v where "v = (real (digits_value a) + real (digits_value c) / 10 ^ length c) * 10 ^ digits_value ex"
  have plain_body: "list_all plain_char body"
    using a(2) c x by (auto simp: body_def list_all_iff plain_char_def)
  have plain: "list_all plain_char (s @ body)"
    using s plain_body by (auto simp: plain_char_def)
  then have "\<forall>x \<in> set (s @ body). \<not> is_space x"
    by (auto simp: list_all_iff plain_char_not_space)
  then have trim: "trim (s @ body) = s @ body"
    by (rule trim_no_space)
  have ne: "s @ body \<noteq> []"
    using a(1) by (simp add: body_def)
  have nd: "non_decimal_literal (s @ body) = None"
    using plain by (rule non_decimal_literal_plain)
  have ud: "unsigned_decimal body = Some (rnd v)"
    unfolding body_def v_def using a c x by (rule unsigned_decimal_digits)
  obtain d a' where body_hd: "body = d # a'" "is_digit d"
    using a by (cases a) (auto simp: body_def)
  then have d: "d \<noteq> CHR ''+''" "d \<noteq> CHR ''-''"
    by (auto simp: is_digit_def)
  have sd: "str_decimal (s @ body) = Some (rnd ((if s = [] then 1 else - 1) * v))"
  proof (cases "s = []")
    case True
    then have "str_decimal (s @ body) = unsigned_decimal body"
      using body_hd d by (simp add: str_decimal_def)
    then show ?thesis
      using True by (simp add: ud)
  next
    case False
    with s have "s = ''-''" by simp
    then have "str_decimal (s @ body) = map_option num_neg (unsigned_decimal body)"
      by (simp add: str_decimal_def)
    then show ?thesis
      using False by (simp add: ud rnd_minus)
  qed
  have "Number (s @ body) = rnd ((if s = [] then 1 else - 1) * v)"
    unfolding Number_def Let_def trim using ne by (auto simp: nd sd)
  then show ?thesis
    by (simp only: body_def v_def)
qed

lemma Number_digits:
  assumes "a \<noteq> []" "list_all is_digit a"
  shows "Number a = rnd (real (digits_value a))"
  using Number_written [of "[]" a "[]" "[]"] assms by (simp add: digits_value_Nil)

lemma Number_small: "Number ''0'' = Fin 0" "Number ''1'' = Fin 1" "Number ''5'' = Fin 5"
  by (simp_all add: Number_digits is_digit_def digits_value_def digit_value_def rnd_small)

lemma Number_Infinity: "Number ''Infinity'' = PInf"
proof -
  have "trim ''Infinity'' = ''Infinity''"
    by (intro trim_no_space) (simp add: is_space_def)
  then show ?thesis
    by (simp add: Number_def non_decimal_literal_def str_decimal_def unsigned_decimal_def)
qed

subsection \<open>Text decoding\<close>

lemma line_at_nth: "i < length lines \<Longrightarrow> line_at lines i = trim (lines ! i)"
  by (simp add: line_at_def)

lemma skip_until_first_from: "skip_until p lines i = first_from (is_line p) lines i"
proof (induction p lines i rule: skip_until.induct)
  case (1 p lines i)
  show ?case
  proof (cases "i < length lines")
    case False
    then show ?thesis
      by (subst skip_until.simps) (simp add: first_from_def)
  next
    case True
    then have drop: "drop i lines = lines ! i # drop (i + 1) lines"
      by (simp add: Cons_nth_drop_Suc)
    show ?thesis
    proof (cases "is_line p (lines ! i)")
      case yes: True
      then show ?thesis
        using True
        by (subst skip_until.simps) (simp add: first_from_def drop line_at_nth is_line_def)
    next
      case no: False
      then have "skip_until p lines i = skip_until p lines (i + 1)"
        using True by (subst skip_until.simps) (simp add: line_at_nth is_line_def)
      also have "\<dots> = first_from (is_line p) lines (i + 1)"
        using True no by (intro "1.IH") (simp add: line_at_nth is_line_def)
      also have "\<dots> = first_from (is_line p) lines i"
        using no by (simp add: first_from_def drop)
      finally show ?thesis .
    qed
  qed
qed

lemma read_vertices_takeWhile:
  "k \<le> 3 \<Longrightarrow>
   read_vertices lines k i verts =
     (verts @ map vertex_of_line (takeWhile (is_line ''vertex'') (take (3 - k) (drop i lines))),
      i + length (takeWhile (is_line ''vertex'') (take (3 - k) (drop i lines))))"
proof (induction lines k i verts rule: read_vertices.induct)
  case (1 lines k i verts)
  show ?case
  proof (cases "k < 3 \<and> i < length lines")
    case False
    then have "take (3 - k) (drop i lines) = []"
      using "1.prems" by auto
    then have "takeWhile (is_line ''vertex'') (take (3 - k) (drop i lines)) = []"
      by (simp only: takeWhile.simps)
    moreover have "read_vertices lines k i verts = (verts, i)"
      using False by (subst read_vertices.simps) auto
    ultimately show ?thesis by simp
  next
    case True
    then have "3 - k = Suc (3 - (k + 1))" "drop i lines = lines ! i # drop (i + 1) lines"
      by (auto simp: Cons_nth_drop_Suc)
    then have drop: "take (3 - k) (drop i lines) = lines ! i # take (3 - (k + 1)) (drop (i + 1) lines)"
      by (simp only: take_Suc_Cons)
    show ?thesis
    proof (cases "is_line ''vertex'' (lines ! i)")
      case no: False
      then have "read_vertices lines k i verts = (verts, i)"
        using True by (subst read_vertices.simps) (simp add: line_at_nth is_line_def)
      then show ?thesis
        using no by (simp add: drop)
    next
      case yes: True
      have v: "vec_of_values (map Number (drop 1 (split_ws (line_at lines i)))) = vertex_of_line (lines ! i)"
        using True by (simp add: line_at_nth vertex_of_line_def)
      have starts: "\<not> \<not> startsWith (line_at lines i) ''vertex''"
        using True yes by (simp add: line_at_nth is_line_def)
      have "read_vertices lines k i verts =
          read_vertices lines (k + 1) (i + 1) (verts @ [vertex_of_line (lines ! i)])"
        using True yes
        by (subst read_vertices.simps) (simp add: line_at_nth is_line_def vertex_of_line_def Let_def)
      also have "\<dots> =
          ((verts @ [vertex_of_line (lines ! i)]) @
             map vertex_of_line (takeWhile (is_line ''vertex'') (take (3 - (k + 1)) (drop (i + 1) lines))),
           (i + 1) + length (takeWhile (is_line ''vertex'') (take (3 - (k + 1)) (drop (i + 1) lines))))"
        using "1.IH" [OF True refl starts refl refl] True unfolding v by simp
      finally show ?thesis
        using yes by (simp add: drop)
    qed
  qed
qed

lemma takeWhile_take3:
  assumes "length (takeWhile P (take 3 xs)) = 3"
  shows "takeWhile P (take 3 xs) = [xs ! 0, xs ! 1, xs ! 2] \<and> 3 \<le> length xs"
proof -
  have le: "length (takeWhile P (take 3 xs)) \<le> length (take 3 xs)"
    by (rule length_takeWhile_le)
  with assms have len: "3 \<le> length xs" by simp
  have "takeWhile P (take 3 xs) = take 3 (take 3 xs)"
    using takeWhile_eq_take [of P "take 3 xs"] assms by simp
  also have "\<dots> = take 3 xs" by simp
  also have "\<dots> = [xs ! 0, xs ! 1, xs ! 2]"
  proof -
    obtain a b c ys where "xs = a # b # c # ys"
      using len by (cases xs; cases "tl xs"; cases "tl (tl xs)") auto
    then show ?thesis by (simp add: numeral_3_eq_3)
  qed
  finally show ?thesis using len by simp
qed

lemma parse_loop_blocks:
  "parse_loop lines i triangles =
     triangles @ map (block_triangle lines)
       (filter (\<lambda>i. vertex_lines_found lines i = 3) (facet_blocks lines i))"
proof (induction lines i triangles rule: parse_loop.induct)
  case (1 lines i triangles)
  show ?case
  proof (cases "i < length lines")
    case False
    then show ?thesis
      by (subst parse_loop.simps, subst facet_blocks.simps) simp
  next
    case inside: True
    show ?thesis
    proof (cases "is_line ''facet normal'' (lines ! i)")
      case False
      then have no: "\<not> startsWith (line_at lines i) ''facet normal''"
        using inside by (simp add: line_at_nth is_line_def)
      have "parse_loop lines i triangles = parse_loop lines (i + 1) triangles"
        using inside no by (subst parse_loop.simps) simp
      also have "\<dots> = triangles @ map (block_triangle lines)
          (filter (\<lambda>i. vertex_lines_found lines i = 3) (facet_blocks lines (i + 1)))"
        using inside no by (rule "1.IH"(2) [OF _ refl])
      also have "facet_blocks lines (i + 1) = facet_blocks lines i"
        using inside False by (subst (2) facet_blocks.simps) simp
      finally show ?thesis .
    next
      case True
      then have yes: "startsWith (line_at lines i) ''facet normal''"
        using inside by (simp add: line_at_nth is_line_def)
      define i1 where "i1 = skip_until ''outer loop'' lines (i + 1)"
      define found where "found = takeWhile (is_line ''vertex'') (take 3 (drop (i1 + 1) lines))"
      define verts where "verts = map vertex_of_line found"
      define i2 where "i2 = i1 + 1 + length found"
      define i3 where "i3 = skip_until ''endfacet'' lines i2"
      define pushed where "pushed =
        (if length verts = 3
         then triangles @ [\<lparr>normal = vec_of_values (parseFloatsFromLine (line_at lines i)),
                            vertices = (verts ! 0, verts ! 1, verts ! 2)\<rparr>]
         else triangles)"
      have i1: "i1 = outer_loop_of lines i"
        by (simp add: i1_def outer_loop_of_def skip_until_first_from)
      have nfound: "length found = vertex_lines_found lines i"
        by (simp add: found_def vertex_lines_found_def i1)
      have rv: "read_vertices lines 0 (i1 + 1) [] = (verts, i2)"
        by (simp add: read_vertices_takeWhile verts_def found_def i2_def)
      have i3: "i3 = block_end lines i"
        by (simp add: i3_def i2_def block_end_def skip_until_first_from i1 nfound)
      have step: "parse_loop lines i triangles = parse_loop lines (i3 + 1) pushed"
        by (subst parse_loop.simps)
          (simp only: Let_def i1_def [symmetric] rv prod.case i3_def [symmetric]
            pushed_def [symmetric] inside yes if_True)
      have IH: "parse_loop lines (i3 + 1) pushed = pushed @ map (block_triangle lines)
          (filter (\<lambda>i. vertex_lines_found lines i = 3) (facet_blocks lines (i3 + 1)))"
        unfolding pushed_def i3_def
        by (rule "1.IH"(1) [OF inside refl yes refl i1_def rv [symmetric] refl])
      have blocks: "facet_blocks lines i = i # facet_blocks lines (i3 + 1)"
        using inside True by (subst facet_blocks.simps) (simp add: i3)
      have pushed: "pushed = triangles @
          map (block_triangle lines) (filter (\<lambda>i. vertex_lines_found lines i = 3) [i])"
      proof (cases "vertex_lines_found lines i = 3")
        case False
        then show ?thesis
          by (simp add: pushed_def verts_def nfound)
      next
        case three: True
        then have "length (takeWhile (is_line ''vertex'') (take 3 (drop (i1 + 1) lines))) = 3"
          using nfound by (simp add: found_def)
        then have f: "found = [drop (i1 + 1) lines ! 0, drop (i1 + 1) lines ! 1, drop (i1 + 1) lines ! 2]"
          and len: "3 \<le> length (drop (i1 + 1) lines)"
          unfolding found_def by (auto dest: takeWhile_take3)
        from len have "i1 + 1 \<le> length lines" by simp
        then have nth: "drop (i1 + 1) lines ! 0 = lines ! (i1 + 1)"
          "drop (i1 + 1) lines ! 1 = lines ! (i1 + 2)" "drop (i1 + 1) lines ! 2 = lines ! (i1 + 3)"
          by (simp_all add: nth_drop eval_nat_numeral)
        have "verts = [vertex_of_line (lines ! (i1 + 1)), vertex_of_line (lines ! (i1 + 2)),
            vertex_of_line (lines ! (i1 + 3))]"
          unfolding verts_def f nth by simp
        then have "verts ! 0 = vertex_of_line (lines ! (i1 + 1))"
          "verts ! 1 = vertex_of_line (lines ! (i1 + 2))"
          "verts ! 2 = vertex_of_line (lines ! (i1 + 3))"
          by simp_all
        then have "\<lparr>normal = vec_of_values (parseFloatsFromLine (line_at lines i)),
               vertices = (verts ! 0, verts ! 1, verts ! 2)\<rparr> = block_triangle lines i"
          unfolding block_triangle_def i1 [symmetric] line_at_nth [OF inside] by (simp only:)
        then show ?thesis
          using three by (simp add: pushed_def verts_def nfound)
      qed
      have "parse_loop lines i triangles = pushed @ map (block_triangle lines)
          (filter (\<lambda>i. vertex_lines_found lines i = 3) (facet_blocks lines (i3 + 1)))"
        by (simp only: step IH)
      then show ?thesis
        unfolding blocks pushed by simp
    qed
  qed
qed

lemma vec_of_tokens:
  "vec_of_values (map Number [a, b, c]) =
     (or_zero (Some (Number a)), or_zero (Some (Number b)), or_zero (Some (Number c)))"
  by (simp add: vec_of_values_def array_get_def)



subsection \<open>The metric bundle of an empty mesh and a mesh with triangles\<close>

text \<open>
  Every distance from a point to an empty cloud is \<open>Infinity\<close> (the running minimum
  is never lowered), and so are the three statistics of that direction. The bounding
  box of no triangle keeps its initial corners, and its diagonal is \<open>Infinity\<close> too.
\<close>

lemma sort_insert_PInf:
  "sort_insert (\<lambda>x y. num_sub x y) PInf (replicate n PInf) = replicate (Suc n) PInf"
  by (cases n) (simp_all add: num_sub_def num_gt_def)

lemma array_sort_PInf:
  "array_sort (\<lambda>x y. num_sub x y) (replicate n PInf) = replicate n PInf"
proof (induction n)
  case 0
  show ?case by simp
next
  case (Suc n)
  have "array_sort (\<lambda>x y. num_sub x y) (replicate (Suc n) PInf) =
        sort_insert (\<lambda>x y. num_sub x y) PInf (array_sort (\<lambda>x y. num_sub x y) (replicate n PInf))"
    by simp
  then show ?case
    by (simp only: Suc.IH sort_insert_PInf)
qed

lemma foldl_num_add_PInf: "foldl num_add PInf (replicate n PInf) = PInf"
  by (induction n) simp_all

lemma oneWay_to_empty:
  assumes "a \<noteq> []" "length a < 2 ^ 32"
  shows "oneWay a [] = \<lparr>mean = PInf, p95 = PInf, max_stat = PInf\<rparr>"
proof -
  define n where "n = length a"
  have n: "0 < n" "n < 2 ^ 32" using assms by (simp_all add: n_def)
  have mins: "array_sort (\<lambda>x y. num_sub x y) (map (\<lambda>p. math_sqrt (nearest p [] PInf)) a) =
      replicate n PInf"
    by (simp add: map_replicate_const n_def array_sort_PInf)
  obtain m where m: "n = Suc m" using n by (cases n) auto
  have total: "foldl num_add (Fin 0) (replicate n PInf) = PInf"
    by (simp add: m foldl_num_add_PInf)
  have nb: "int n < 2 ^ 32"
    using n(2) by (metis of_nat_less_iff of_nat_numeral of_nat_power)
  have "rnd (of_int (int n - 1)) = Fin (of_int (int n - 1))"
    using nb by (intro rnd_int) simp
  moreover have "(of_int (int n - 1) :: real) = real n - 1"
    by simp
  ultimately have pred: "num_sub (Fin (real n)) (Fin 1) = Fin (of_int (int n - 1))"
    unfolding num_sub_Fin by (simp only:)
  have floor95: "math_floor (num_mul (Fin (real n)) (rnd (95 / 100))) = Fin (of_int \<lfloor>95 / 100 * real n\<rfloor>)"
    using n(2) by (rule index_95)
  define k where "k = min (int n - 1) \<lfloor>95 / 100 * real n\<rfloor>"
  have k: "0 \<le> k" "k < int n"
    using n(1) by (simp_all add: k_def)
  have "min (of_int (int n - 1)) (of_int \<lfloor>95 / 100 * real n\<rfloor>) = (of_int k :: real)"
    unfolding k_def by (simp only: of_int_min)
  then have idx: "math_min (Fin (of_int (int n - 1)))
      (math_floor (num_mul (Fin (real n)) (rnd (95 / 100)))) = Fin (of_int k)"
    unfolding floor95 math_min_Fin by (simp only:)
  have p95: "array_at (replicate n PInf) (Fin (of_int k)) = Some PInf"
    using array_at_index [of k "replicate n PInf"] k by simp
  have mx: "array_at (replicate n PInf) (Fin (of_int (int n - 1))) = Some PInf"
    using array_at_index [of "int n - 1" "replicate n PInf"] n(1) by simp
  show ?thesis
    unfolding oneWay_def mins Let_def length_replicate pred idx p95 mx total
    using n by simp
qed

lemma oneWay_from_empty: "oneWay [] b = \<lparr>mean = Fin 0, p95 = Fin 0, max_stat = Fin 0\<rparr>"
  by (simp add: oneWay_def array_get_def num_sub_Fin rnd_small rnd_95)

lemma diagonal_of_no_triangle: "aabbDiagonal (aabbOfTriangles []) = PInf"
  by (simp add: aabbOfTriangles_def num_sub_def)

lemma scale_of_no_triangle:
  "math_max (rnd e) (math_max PInf x) = PInf \<or> math_max (rnd e) (math_max PInf x) = NaN"
  using rnd_not_NaN [of e] by (cases x; cases "rnd e") simp_all

lemma infinite_over_scale:
  "num_div PInf (math_max (rnd e) (math_max PInf x)) = NaN"
  using scale_of_no_triangle [of e x] by auto

lemma parseAsciiStl_empty_text: "parseAsciiStl [] = []"
proof -
  have "lines_of [] = [[]]"
    by code_simp
  moreover have "\<not> startsWith (line_at [[]] 0) ''facet normal''"
    by code_simp
  then have "parse_loop [[]] 0 [] = parse_loop [[]] (0 + 1) []"
    by (subst parse_loop.simps) simp
  moreover have "parse_loop [[]] (0 + 1) [] = []"
    by (subst parse_loop.simps) simp
  ultimately show ?thesis
    by (simp add: parseAsciiStl_def)
qed

lemma parse_one_triangle_text: "parseAsciiStl one_triangle_text = [flat_triangle]"
proof -
  define L where "L = [''solid t'', ''  facet normal 0 0 1'', ''    outer loop'', ''      vertex 0 0 0'',
      ''      vertex 1 0 0'', ''      vertex 0 1 0'', ''    endloop'', ''  endfacet'', ''endsolid t'']"
  have lines: "lines_of one_triangle_text = L"
    unfolding one_triangle_text_def L_def by code_simp
  have blocks: "filter (\<lambda>i. vertex_lines_found L i = 3) (facet_blocks L 0) = [1]"
    unfolding L_def by code_simp
  have outer: "outer_loop_of L 1 = 2"
    unfolding L_def by code_simp
  have nth: "L ! 1 = ''  facet normal 0 0 1''" "L ! (2 + 1) = ''      vertex 0 0 0''"
    "L ! (2 + 2) = ''      vertex 1 0 0''" "L ! (2 + 3) = ''      vertex 0 1 0''"
    by (simp_all add: L_def)
  have tokens: "drop 2 (split_ws (trim (trim ''  facet normal 0 0 1''))) = [''0'', ''0'', ''1'']"
    "drop 1 (split_ws (trim ''      vertex 0 0 0'')) = [''0'', ''0'', ''0'']"
    "drop 1 (split_ws (trim ''      vertex 1 0 0'')) = [''1'', ''0'', ''0'']"
    "drop 1 (split_ws (trim ''      vertex 0 1 0'')) = [''0'', ''1'', ''0'']"
    by code_simp+
  have "block_triangle L 1 = flat_triangle"
    unfolding block_triangle_def outer nth vertex_of_line_def parseFloatsFromLine_def tokens
      vec_of_tokens Number_small flat_triangle_def
    by simp
  then show ?thesis
    unfolding parseAsciiStl_def lines parse_loop_blocks blocks by simp
qed

lemma compare_with_no_source_triangle:
  assumes src: "parseAsciiStl srcText = []"
    and gen: "parseAsciiStl genText \<noteq> []" "length (parseAsciiStl genText) \<le> 2 ^ 30"
  shows "\<exists>m. compareAsciiStlText rng srcText genText = Some (Inr m) \<and>
     meanBA (chamfer m) = NaN \<and> p95BA (chamfer m) = NaN \<and> maxBA (chamfer m) = NaN"
proof -
  define genTris where "genTris = parseAsciiStl genText"
  have s1: "sampleSurfacePoints [] sampleN rng 0 = Some (Inr ([], 0))"
    by (simp add: sampleSurfacePoints_def)
  have areas: "cumulative_areas genTris \<noteq> []"
    using gen(1) length_cumulative_areas [of genTris] by (auto simp: genTris_def)
  obtain pts where loop: "sample_loop genTris (cumulative_areas genTris) rng 0 (nat sampleN) =
      Some (Inr (pts, 0 + 3 * nat sampleN))" and len: "length pts = nat sampleN"
    using sample_loop_returns [OF areas length_cumulative_areas, of rng 0 "nat sampleN"] gen(2)
    by (auto simp: genTris_def)
  have s2: "sampleSurfacePoints genTris sampleN rng 0 = Some (Inr (pts, 0 + 3 * nat sampleN))"
    using gen(1) loop by (simp add: sampleSurfacePoints_def genTris_def sampleN_def)
  have ne: "pts \<noteq> []"
    using len by (auto simp: sampleN_def)
  have short: "length pts < 2 ^ 32"
    using len by (simp add: sampleN_def)
  have stats: "chamferDistance [] pts =
      \<lparr>meanAB = Fin 0, meanBA = PInf, p95AB = Fin 0, p95BA = PInf, maxAB = Fin 0, maxBA = PInf\<rparr>"
    by (simp add: chamferDistance_def oneWay_from_empty oneWay_to_empty [OF ne short])
  show ?thesis
    unfolding compareAsciiStlText_def src genTris_def [symmetric] Let_def
    by (simp add: s1 s2 stats diagonal_of_no_triangle infinite_over_scale del: aabbDiagonal.simps)
qed

text \<open>
  C3 (not met by the code). When the source text has no triangle and the generated
  text has one, \<^verbatim>\<open>compareAsciiStlText\<close> returns a bundle whose \<open>meanBA\<close>, \<open>p95BA\<close>
  and \<open>maxBA\<close> are \<open>NaN\<close>: the statistics of the direction towards the empty cloud
  are \<open>Infinity\<close>, and they are divided by a scale that is \<open>Infinity\<close> as well (or
  \<open>NaN\<close>), the floor of \<open>1e-9\<close> guarding only against a zero scale.
\<close>

theorem compare_empty_source_is_NaN:
  "\<exists>m. compareAsciiStlText rng [] one_triangle_text = Some (Inr m) \<and>
     meanBA (chamfer m) = NaN \<and> p95BA (chamfer m) = NaN \<and> maxBA (chamfer m) = NaN"
proof -
  have "parseAsciiStl one_triangle_text = [flat_triangle]"
    by (rule parse_one_triangle_text)
  then show ?thesis
    by (intro compare_with_no_source_triangle parseAsciiStl_empty_text) simp_all
qed

text \<open>
  C10. \<^verbatim>\<open>chamferDistance\<close> of two empty point clouds: the six statistics are all 0.
  The sum of no distances is divided by 1 (\<^verbatim>\<open>mins.length || 1\<close>), and the two reads at
  index \<open>-1\<close> (the lesser of \<open>0 - 1\<close> and \<open>floor (0 * 0.95)\<close>) give \<^verbatim>\<open>undefined\<close>, which
  \<^verbatim>\<open>?? 0\<close> replaces by 0.
\<close>

theorem chamferDistance_empty:
  "chamferDistance [] [] =
     \<lparr>meanAB = Fin 0, meanBA = Fin 0, p95AB = Fin 0, p95BA = Fin 0, maxAB = Fin 0, maxBA = Fin 0\<rparr>"
  by (simp add: chamferDistance_def oneWay_def array_get_def num_sub_Fin rnd_small rnd_95)

end
